theory Spec2Isabelle
  imports Main
begin

section \<open>Deferred callback (\<open>immediate.ts\<close>)\<close>

text \<open>
  \<open>createImmediate\<close> closes over one variable, \<open>timer\<close>, holding the handle that
  \<open>setImmediate\<close> returned last. The handles themselves live in the event loop of the
  runtime, which is made explicit here: \<open>imm_queue\<close> is the loop's list of pending
  immediates in the order they were queued (handle and callback), \<open>imm_fresh\<close> the next
  unused handle. \<open>setImmediate\<close> appends to that list, \<open>clearImmediate\<close> removes the
  entry with the given handle (and does nothing when the handle is no longer pending).
\<close>

record 'c immediate =
  timer :: "nat option"
  imm_queue :: "(nat \<times> 'c) list"
  imm_fresh :: nat

definition createImmediate :: "'c immediate" where
  "createImmediate = \<lparr>timer = None, imm_queue = [], imm_fresh = 0\<rparr>"

definition clearImmediate :: "nat \<Rightarrow> (nat \<times> 'c) list \<Rightarrow> (nat \<times> 'c) list" where
  "clearImmediate h q = filter (\<lambda>p. fst p \<noteq> h) q"

text \<open>\<open>clear\<close>: when \<open>timer\<close> is defined, clear that handle and forget it.\<close>

definition immediate_clear :: "'c immediate \<Rightarrow> 'c immediate" where
  "immediate_clear im =
     (case timer im of
        None \<Rightarrow> im
      | Some h \<Rightarrow> im\<lparr>imm_queue := clearImmediate h (imm_queue im), timer := None\<rparr>)"

text \<open>
  \<open>set\<close>: \<open>timer = setImmediate(...)\<close>. The previous value of \<open>timer\<close> is overwritten;
  the source does not clear it first.
\<close>

definition immediate_set :: "'c \<Rightarrow> 'c immediate \<Rightarrow> 'c immediate" where
  "immediate_set callback im =
     im\<lparr>imm_queue := imm_queue im @ [(imm_fresh im, callback)],
        timer := Some (imm_fresh im),
        imm_fresh := Suc (imm_fresh im)\<rparr>"

text \<open>
  The event loop runs the oldest pending immediate. What was queued is the wrapper
  \<open>() => { callback(); clear(); }\<close>: the callback is reported to the caller of
  \<open>fireImmediate\<close>, which runs it, and \<open>clear\<close> follows.
\<close>

definition fireImmediate :: "'c immediate \<Rightarrow> 'c option \<times> 'c immediate" where
  "fireImmediate im =
     (case imm_queue im of
        [] \<Rightarrow> (None, im)
      | p # q \<Rightarrow> (Some (snd p), immediate_clear (im\<lparr>imm_queue := q\<rparr>)))"

text \<open>
  One macrotask boundary: the loop runs the pending immediates one after the other until
  none is left; the result lists the callbacks that ran, in order. (The callbacks of this
  repository do not schedule further immediates.)
\<close>

function runImmediates :: "'c immediate \<Rightarrow> 'c list \<times> 'c immediate" where
  "runImmediates im =
     (case imm_queue im of
        [] \<Rightarrow> ([], im)
      | p # q \<Rightarrow>
          (case runImmediates (immediate_clear (im\<lparr>imm_queue := q\<rparr>)) of
             (fired, im') \<Rightarrow> (snd p # fired, im')))"
  by pat_completeness auto
termination
proof (relation "measure (\<lambda>im. length (imm_queue im))")
  show "wf (measure (\<lambda>im::'c immediate. length (imm_queue im)))"
    by simp
next
  fix im :: "'c immediate" and p q
  assume "imm_queue im = p # q"
  moreover have "length (imm_queue (immediate_clear (im\<lparr>imm_queue := q\<rparr>))) \<le> length q"
    by (simp add: immediate_clear_def clearImmediate_def split: option.splits)
  ultimately show "(immediate_clear (im\<lparr>imm_queue := q\<rparr>), im)
      \<in> measure (\<lambda>im. length (imm_queue im))"
    by simp
qed

text \<open>A deferred callback is tidy when nothing is pending but what \<open>timer\<close> tracks.\<close>

definition tidy :: "'c immediate \<Rightarrow> bool" where
  "tidy im = list_all (\<lambda>p. timer im = Some (fst p)) (imm_queue im)"

section \<open>History guard (\<open>history.ts\<close>)\<close>

text \<open>
  The guard closes over \<open>history\<close>, an array or \<open>undefined\<close> (\<open>None\<close>), and over
  \<open>lockLength\<close>. Every use of the array is behind \<open>Array.isArray(history)\<close>.
\<close>

record cliHistory =
  history :: "string list option"
  lockLength :: int

definition createHistory :: "string list option \<Rightarrow> cliHistory" where
  "createHistory h = \<lparr>history = h, lockLength = - 1\<rparr>"

definition history_set :: "string list \<Rightarrow> cliHistory \<Rightarrow> cliHistory" where
  "history_set newHistory g = g\<lparr>history := Some newHistory\<rparr>"

definition history_lock :: "cliHistory \<Rightarrow> cliHistory" where
  "history_lock g =
     g\<lparr>lockLength := (case history g of Some xs \<Rightarrow> int (length xs) | None \<Rightarrow> - 1)\<rparr>"

definition history_unlock :: "cliHistory \<Rightarrow> cliHistory" where
  "history_unlock g = g\<lparr>lockLength := - 1\<rparr>"

text \<open>
  \<open>xs.splice(0, n)\<close> with \<open>n \<ge> 0\<close> removes the first \<open>n\<close> elements (all of them when
  \<open>n\<close> exceeds the length); \<open>xs.splice(0)\<close> removes every element.
\<close>

definition splice0 :: "int \<Rightarrow> 'a list \<Rightarrow> 'a list" where
  "splice0 n xs = drop (nat n) xs"

definition history_restore :: "cliHistory \<Rightarrow> cliHistory" where
  "history_restore g =
     (case history g of
        Some xs \<Rightarrow>
          if lockLength g > - 1
          then g\<lparr>history := Some (splice0 \<bar>int (length xs) - lockLength g\<bar> xs)\<rparr>
          else g
      | None \<Rightarrow> g)"

definition history_clear :: "cliHistory \<Rightarrow> cliHistory" where
  "history_clear g =
     (case history g of Some xs \<Rightarrow> g\<lparr>history := Some []\<rparr> | None \<Rightarrow> g)"

text \<open>The guard is locked when \<open>restore\<close> would act: a sequence is bound and a watermark set.\<close>

definition locked :: "cliHistory \<Rightarrow> bool" where
  "locked g = (history g \<noteq> None \<and> lockLength g > - 1)"

section \<open>The session (\<open>cli.ts\<close>)\<close>

text \<open>
  Two revisions of \<open>createCLI\<close> are modelled: the one of \<open>src/cli.ts\<close> whose
  \<open>handleInput\<close> takes \<open>(isParsed, input, throwStartError)\<close> and runs an async function
  with \<open>try\<close>/\<open>catch\<close>/\<open>finally\<close>, and the one whose \<open>handleInput\<close> takes
  \<open>(input, parse, throwStartError)\<close> and runs \<open>handleData().finally(...)\<close>, with a
  \<open>try\<close>/\<open>catch\<close> around each data listener. They differ in nothing else. The flag is
  written \<open>isParsed\<close> throughout; the second revision passes \<open>parse\<close>, its negation.

  Values of type \<open>T\<close>, raw input and thrown values are strings. A listener is a function
  object, compared by identity (\<open>indexOf\<close>): it is a number here. \<open>errorHandler\<close>, the
  default error listener of the module, is not exported, so a caller can only register
  the listeners \<open>Custom n\<close>. The type of \<open>on\<close> and \<open>off\<close> admits the two event names
  \<open>'data'\<close> and \<open>'error'\<close> only.
\<close>

type_synonym val = string
type_synonym err = string

datatype errorListener = errorHandler | Custom nat

datatype eventName = DataEvent | ErrorEvent

datatype revision = Cli_ts | Part_001

text \<open>
  What a call of a function of the caller does before it returns: it returns a value,
  throws, or returns a promise that settles later. The last argument of each function
  counts the calls made so far, so that a function may behave differently from one call
  to the next.
\<close>

datatype 'a returned = Returns 'a | Throws err | Promise

record world =
  revision :: revision
  parser :: "(string \<Rightarrow> nat \<Rightarrow> val returned) option"
  dataListener :: "nat \<Rightarrow> val \<Rightarrow> nat \<Rightarrow> unit returned"
  errorListener :: "nat \<Rightarrow> err \<Rightarrow> nat \<Rightarrow> err option"

text \<open>
  What the session does to the outside is recorded in \<open>trace\<close>, oldest first: the
  calls of \<open>rl.pause()\<close>, \<open>rl.resume()\<close>, \<open>rl.prompt(true)\<close> and
  \<open>rl.removeAllListeners()\<close>, the calls of the parser and of the listeners, and the
  promises of the async body that reject with nobody handling them.
\<close>

datatype action =
    RlPause | RlResume | RlPrompt | RlRemoveAllListeners
  | ParserCall string
  | DataCall nat val
  | ErrorCall errorListener err
  | Unhandled err

text \<open>
  An accepted item runs an async function, which is suspended at an \<open>await\<close> until the
  awaited promise settles and the continuation is run as a microtask. A \<open>task\<close> is one
  such run: \<open>AwaitingParser\<close> at \<open>await parser(input)\<close>, with the settled result in
  \<open>parsed\<close> once there is one; \<open>AwaitingListeners\<close> at \<open>await Promise.all(...)\<close>,
  with the positions of the listeners whose promise has not settled in \<open>pending\<close> and the
  first rejection that reached \<open>Promise.all\<close> in \<open>rejected\<close>; \<open>Completed\<close> once the
  cleanup has run. \<open>orphaned\<close> marks promises that were never handed to \<open>Promise.all\<close>.
\<close>

datatype stage = AwaitingParser | AwaitingListeners | Completed

record task =
  stage :: stage
  parsed :: "(err + val) option"
  pending :: "nat list"
  rejected :: "err option"
  orphaned :: bool

text \<open>
  The variables \<open>createCLI\<close> closes over. \<open>attached\<close> says whether the \<open>'history'\<close>,
  \<open>'line'\<close> and \<open>'close'\<close> listeners of the session are still registered on \<open>rl\<close>.
\<close>

record session =
  started :: bool
  closed :: bool
  isIgnoring :: bool
  didSetError :: bool
  dataListeners :: "nat list"
  errorListeners :: "errorListener list"
  immediate :: "unit immediate"
  historyGuard :: cliHistory
  attached :: bool
  tasks :: "task list"
  calls :: nat
  trace :: "action list"

datatype 'a result = Returned 'a | Thrown err 'a

fun state_of :: "'a result \<Rightarrow> 'a" where
  "state_of (Returned s) = s"
| "state_of (Thrown e s) = s"

definition emit :: "action \<Rightarrow> session \<Rightarrow> session" where
  "emit a s = s\<lparr>trace := trace s @ [a]\<rparr>"

definition called :: "action \<Rightarrow> session \<Rightarrow> session" where
  "called a s = s\<lparr>trace := trace s @ [a], calls := Suc (calls s)\<rparr>"

definition setTask :: "nat \<Rightarrow> task \<Rightarrow> session \<Rightarrow> session" where
  "setTask tid t s = s\<lparr>tasks := (tasks s)[tid := t]\<rparr>"

definition resume :: "session \<Rightarrow> session" where
  "resume s = (if \<not> closed s then emit RlResume s else s)"

definition prompt :: "session \<Rightarrow> session" where
  "prompt s = (if \<not> closed s then emit RlPrompt s else s)"

definition ignore :: "bool \<Rightarrow> session \<Rightarrow> session" where
  "ignore v s =
     (let s1 = s\<lparr>isIgnoring := v\<rparr> in
      if isIgnoring s1
      then resume (s1\<lparr>historyGuard := history_lock (historyGuard s1)\<rparr>)
      else s1\<lparr>historyGuard := history_unlock (historyGuard s1)\<rparr>)"

text \<open>
  \<open>errorListeners.forEach(listener => listener(error))\<close>: the listeners are called in
  order; one that throws ends the loop, and what it threw is returned. \<open>errorHandler\<close>
  throws its argument.
\<close>

fun callErrorListeners ::
  "world \<Rightarrow> errorListener list \<Rightarrow> err \<Rightarrow> session \<Rightarrow> session \<times> err option" where
  "callErrorListeners w [] e s = (s, None)"
| "callErrorListeners w (l # ls) e s =
     (case (case l of errorHandler \<Rightarrow> Some e | Custom n \<Rightarrow> errorListener w n e (calls s)) of
        Some e' \<Rightarrow> (called (ErrorCall l e) s, Some e')
      | None \<Rightarrow> callErrorListeners w ls e (called (ErrorCall l e) s))"

definition notifyError :: "world \<Rightarrow> err \<Rightarrow> session \<Rightarrow> session \<times> err option" where
  "notifyError w e s = callErrorListeners w (errorListeners s) e s"

text \<open>
  \<open>dataListeners.map(listener => listener(value))\<close>: the listeners are called in order,
  from position \<open>i\<close> on; a call that throws ends the loop. The result holds the positions
  of the listeners that returned a promise and the value thrown, if any.
\<close>

fun callDataListeners ::
  "world \<Rightarrow> nat list \<Rightarrow> val \<Rightarrow> nat \<Rightarrow> session \<Rightarrow> session \<times> nat list \<times> err option" where
  "callDataListeners w [] v i s = (s, [], None)"
| "callDataListeners w (l # ls) v i s =
     (case dataListener w l v (calls s) of
        Throws e \<Rightarrow> (called (DataCall l v) s, [], Some e)
      | Returns u \<Rightarrow> callDataListeners w ls v (Suc i) (called (DataCall l v) s)
      | Promise \<Rightarrow>
          (case callDataListeners w ls v (Suc i) (called (DataCall l v) s) of
             (s', ps, r) \<Rightarrow> (s', i # ps, r)))"

text \<open>
  \<open>dataListeners.map(async listener => { try { await listener(parsed); } catch (error)
  { errorListeners.forEach(listener => listener(error)); } })\<close>: every listener is called;
  what a call throws goes to the error listeners at once, and what an error listener
  throws there rejects the promise of that wrapper. The result holds the positions of
  the listeners that returned a promise and the first such rejection, if any.
\<close>

fun wrapDataListeners ::
  "world \<Rightarrow> nat list \<Rightarrow> val \<Rightarrow> nat \<Rightarrow> session \<Rightarrow> session \<times> nat list \<times> err option" where
  "wrapDataListeners w [] v i s = (s, [], None)"
| "wrapDataListeners w (l # ls) v i s =
     (case dataListener w l v (calls s) of
        Throws e \<Rightarrow>
          (case notifyError w e (called (DataCall l v) s) of
             (s1, thrown) \<Rightarrow>
               (case wrapDataListeners w ls v (Suc i) s1 of
                  (s', ps, r) \<Rightarrow> (s', ps, (case thrown of Some e' \<Rightarrow> Some e' | None \<Rightarrow> r))))
      | Returns u \<Rightarrow> wrapDataListeners w ls v (Suc i) (called (DataCall l v) s)
      | Promise \<Rightarrow>
          (case wrapDataListeners w ls v (Suc i) (called (DataCall l v) s) of
             (s', ps, r) \<Rightarrow> (s', i # ps, r)))"

text \<open>The cleanup: \<open>ignore(false); resume(); immediate.set(() => prompt());\<close>\<close>

definition cleanup :: "session \<Rightarrow> session" where
  "cleanup s =
     (let s1 = ignore False s; s2 = resume s1
      in s2\<lparr>immediate := immediate_set () (immediate s2)\<rparr>)"

definition completed :: "nat list \<Rightarrow> bool \<Rightarrow> task" where
  "completed ps orph =
     \<lparr>stage = Completed, parsed = None, pending = ps, rejected = None, orphaned = orph\<rparr>"

definition awaitingParser :: "(err + val) option \<Rightarrow> task" where
  "awaitingParser r =
     \<lparr>stage = AwaitingParser, parsed = r, pending = [], rejected = None, orphaned = False\<rparr>"

definition awaitingListeners :: "nat list \<Rightarrow> err option \<Rightarrow> task" where
  "awaitingListeners ps r =
     \<lparr>stage = AwaitingListeners, parsed = None, pending = ps, rejected = r, orphaned = False\<rparr>"

subsection \<open>The async body of \<open>src/cli.ts\<close>\<close>

text \<open>
  The \<open>catch\<close> and \<open>finally\<close> blocks, entered with the value the \<open>try\<close> block threw
  (\<open>None\<close> when it threw nothing). When an error listener throws in the \<open>catch\<close> block,
  the \<open>finally\<close> block still runs, and the promise of the async function rejects.
\<close>

definition catchFinally :: "world \<Rightarrow> err option \<Rightarrow> session \<Rightarrow> session" where
  "catchFinally w r s =
     (case r of
        None \<Rightarrow> cleanup s
      | Some e \<Rightarrow>
          (case notifyError w e s of
             (s1, None) \<Rightarrow> cleanup s1
           | (s1, Some e') \<Rightarrow> emit (Unhandled e') (cleanup s1)))"

text \<open>
  \<open>await Promise.all(dataListeners.map(listener => listener(value)))\<close>, up to the
  \<open>await\<close>. A listener that throws ends the \<open>try\<close> block before \<open>Promise.all\<close> is
  called: the promises returned so far are left to themselves.
\<close>

definition notifyAll :: "world \<Rightarrow> nat \<Rightarrow> val \<Rightarrow> session \<Rightarrow> session" where
  "notifyAll w tid v s =
     (case callDataListeners w (dataListeners s) v 0 s of
        (s1, ps, Some e) \<Rightarrow> setTask tid (completed ps True) (catchFinally w (Some e) s1)
      | (s1, ps, None) \<Rightarrow> setTask tid (awaitingListeners ps None) s1)"

text \<open>
  The async function, from its start to its first \<open>await\<close> (or to its end):
  \<open>!isParsed && parser ? await parser(input) : input\<close>.
\<close>

definition asyncBody :: "world \<Rightarrow> nat \<Rightarrow> bool \<Rightarrow> val \<Rightarrow> session \<Rightarrow> session" where
  "asyncBody w tid isParsed input s =
     (case (if \<not> isParsed then parser w else None) of
        Some p \<Rightarrow>
          (case p input (calls s) of
             Throws e \<Rightarrow>
               setTask tid (completed [] False)
                 (catchFinally w (Some e) (called (ParserCall input) s))
           | Returns v \<Rightarrow>
               setTask tid (awaitingParser (Some (Inr v))) (called (ParserCall input) s)
           | Promise \<Rightarrow> setTask tid (awaitingParser None) (called (ParserCall input) s))
      | None \<Rightarrow> notifyAll w tid input s)"

text \<open>The continuation of the async function after the \<open>await\<close> it is suspended at.\<close>

definition continue :: "world \<Rightarrow> nat \<Rightarrow> task \<Rightarrow> session \<Rightarrow> session" where
  "continue w tid t s =
     (case stage t of
        AwaitingParser \<Rightarrow>
          (case parsed t of
             None \<Rightarrow> s
           | Some (Inl e) \<Rightarrow> setTask tid (completed [] False) (catchFinally w (Some e) s)
           | Some (Inr v) \<Rightarrow> notifyAll w tid v s)
      | AwaitingListeners \<Rightarrow>
          (case rejected t of
             Some e \<Rightarrow> setTask tid (completed (pending t) False) (catchFinally w (Some e) s)
           | None \<Rightarrow>
               if pending t = []
               then setTask tid (completed [] False) (catchFinally w None s)
               else s)
      | Completed \<Rightarrow> s)"

text \<open>
  The promise of the listener at position \<open>i\<close> settles (\<open>None\<close>: fulfilled). A
  rejection reaches \<open>Promise.all\<close>, which keeps the first one; after the task has
  completed it is dropped, or unhandled when the promise was orphaned.
\<close>

definition settled :: "nat \<Rightarrow> nat \<Rightarrow> err option \<Rightarrow> task \<Rightarrow> session \<Rightarrow> session" where
  "settled tid i r t s =
     (let t1 = t\<lparr>pending := removeAll i (pending t)\<rparr> in
      case r of
        None \<Rightarrow> setTask tid t1 s
      | Some e \<Rightarrow>
          if stage t = AwaitingListeners
          then setTask tid
                 (t1\<lparr>rejected := (case rejected t of None \<Rightarrow> Some e | Some e0 \<Rightarrow> Some e0)\<rparr>) s
          else if orphaned t then emit (Unhandled e) (setTask tid t1 s)
          else setTask tid t1 s)"

subsection \<open>The async body of the revision with \<open>handleData\<close>\<close>

definition notifyAll_wrapped :: "world \<Rightarrow> nat \<Rightarrow> val \<Rightarrow> session \<Rightarrow> session" where
  "notifyAll_wrapped w tid v s =
     (case wrapDataListeners w (dataListeners s) v 0 s of
        (s1, ps, r) \<Rightarrow> setTask tid (awaitingListeners ps r) s1)"

text \<open>
  \<open>handleData\<close>, from its start to its first \<open>await\<close>. When the parser throws, the
  error listeners are called and \<open>handleData\<close> returns: its promise is settled, and
  the task waits for the callback of \<open>finally\<close> only.
\<close>

definition handleData :: "world \<Rightarrow> nat \<Rightarrow> bool \<Rightarrow> val \<Rightarrow> session \<Rightarrow> session" where
  "handleData w tid parse input s =
     (case (if parse then parser w else None) of
        Some p \<Rightarrow>
          (case p input (calls s) of
             Throws e \<Rightarrow>
               (case notifyError w e (called (ParserCall input) s) of
                  (s1, thrown) \<Rightarrow> setTask tid (awaitingListeners [] thrown) s1)
           | Returns v \<Rightarrow>
               setTask tid (awaitingParser (Some (Inr v))) (called (ParserCall input) s)
           | Promise \<Rightarrow> setTask tid (awaitingParser None) (called (ParserCall input) s))
      | None \<Rightarrow> notifyAll_wrapped w tid input s)"

text \<open>
  The continuation of \<open>handleData\<close> after \<open>await parser(input)\<close>, and the callback of
  \<open>finally\<close> once the promise of \<open>handleData\<close> has settled: fulfilled when no wrapper
  is pending, rejected as soon as one wrapper rejects. The promise that \<open>finally\<close>
  returns rejects with the same value, unhandled.
\<close>

definition continue_handleData :: "world \<Rightarrow> nat \<Rightarrow> task \<Rightarrow> session \<Rightarrow> session" where
  "continue_handleData w tid t s =
     (case stage t of
        AwaitingParser \<Rightarrow>
          (case parsed t of
             None \<Rightarrow> s
           | Some (Inl e) \<Rightarrow>
               (case notifyError w e s of
                  (s1, thrown) \<Rightarrow> setTask tid (awaitingListeners [] thrown) s1)
           | Some (Inr v) \<Rightarrow> notifyAll_wrapped w tid v s)
      | AwaitingListeners \<Rightarrow>
          (case rejected t of
             Some e \<Rightarrow>
               setTask tid (completed (pending t) False) (emit (Unhandled e) (cleanup s))
           | None \<Rightarrow>
               if pending t = []
               then setTask tid (completed [] False) (cleanup s)
               else s)
      | Completed \<Rightarrow> s)"

text \<open>
  The promise of the listener at position \<open>i\<close> settles: the wrapper of that listener
  continues, and a rejection goes to the error listeners, also after the task has
  completed. What an error listener throws there rejects the wrapper.
\<close>

definition settled_wrapped ::
  "world \<Rightarrow> nat \<Rightarrow> nat \<Rightarrow> err option \<Rightarrow> task \<Rightarrow> session \<Rightarrow> session" where
  "settled_wrapped w tid i r t s =
     (let t1 = t\<lparr>pending := removeAll i (pending t)\<rparr> in
      case r of
        None \<Rightarrow> setTask tid t1 s
      | Some e \<Rightarrow>
          (case notifyError w e s of
             (s1, thrown) \<Rightarrow>
               setTask tid
                 (t1\<lparr>rejected :=
                    (case rejected t of
                       None \<Rightarrow> if stage t = AwaitingListeners then thrown else None
                     | Some e0 \<Rightarrow> Some e0)\<rparr>) s1))"

subsection \<open>\<open>handleInput\<close> and the operations of the session\<close>

text \<open>
  \<open>handleInput\<close>. A call that throws returns \<open>Thrown\<close> with the session as it was
  when it threw. An accepted item starts a run of the async function: the run gets the
  next task number and a place in \<open>tasks\<close>, which the async body fills before
  \<open>handleInput\<close> returns.
\<close>

definition startError :: err where
  "startError = ''Input not accepted without calling `start()`''"

definition handleInput :: "world \<Rightarrow> bool \<Rightarrow> val \<Rightarrow> bool \<Rightarrow> session \<Rightarrow> session result" where
  "handleInput w isParsed input throwStartError s =
     (if throwStartError \<and> \<not> started s then Thrown startError s
      else
        let s1 = s\<lparr>immediate := immediate_clear (immediate s)\<rparr> in
        if isIgnoring s1
        then Returned (s1\<lparr>historyGuard := history_restore (historyGuard s1)\<rparr>)
        else
          let s2 = emit RlPause s1;
              tid = length (tasks s2);
              s3 = s2\<lparr>tasks := tasks s2 @ [awaitingParser None]\<rparr>
          in Returned (case revision w of
                         Cli_ts \<Rightarrow> asyncBody w tid isParsed input s3
                       | Part_001 \<Rightarrow> handleData w tid (\<not> isParsed) input s3))"

definition data :: "world \<Rightarrow> val \<Rightarrow> session \<Rightarrow> session result" where
  "data w d s = handleInput w True d True s"

definition input :: "world \<Rightarrow> string \<Rightarrow> session \<Rightarrow> session result" where
  "input w i s = handleInput w False i True s"

definition start :: "world \<Rightarrow> (bool \<times> val) option \<Rightarrow> session \<Rightarrow> session result" where
  "start w args s =
     (if started s then Returned s
      else
        let s1 = ignore False (s\<lparr>started := True\<rparr>) in
        case args of
          Some (isParsed, i) \<Rightarrow> handleInput w isParsed i False s1
        | None \<Rightarrow> Returned (prompt s1))"

definition on :: "eventName \<Rightarrow> nat \<Rightarrow> session \<Rightarrow> session" where
  "on event listener s =
     (let s1 = (if event = ErrorEvent \<and> \<not> didSetError s
                then s\<lparr>didSetError := True, errorListeners := butlast (errorListeners s)\<rparr>
                else s)
      in if event = DataEvent
         then s1\<lparr>dataListeners := dataListeners s1 @ [listener]\<rparr>
         else s1\<lparr>errorListeners := errorListeners s1 @ [Custom listener]\<rparr>)"

definition off :: "eventName \<Rightarrow> nat \<Rightarrow> session \<Rightarrow> session" where
  "off event listener s =
     (let s1 = (if event = DataEvent
                then s\<lparr>dataListeners := remove1 listener (dataListeners s)\<rparr>
                else s\<lparr>errorListeners := remove1 (Custom listener) (errorListeners s)\<rparr>)
      in if event = ErrorEvent \<and> errorListeners s1 = []
         then s1\<lparr>didSetError := False, errorListeners := errorListeners s1 @ [errorHandler]\<rparr>
         else s1)"

text \<open>The listener of the \<open>'close'\<close> event of \<open>rl\<close>.\<close>

definition onClose :: "session \<Rightarrow> session" where
  "onClose s =
     (let s1 = emit RlRemoveAllListeners
                 (s\<lparr>closed := True, isIgnoring := False, didSetError := False,
                    attached := False\<rparr>)
      in s1\<lparr>historyGuard := history_clear (historyGuard s1),
            dataListeners := [],
            errorListeners := [errorHandler]\<rparr>)"

text \<open>
  \<open>createCLI\<close>, for a source whose \<open>history\<close> property is the given array (or is not
  an array: \<open>None\<close>); it ends with \<open>cli.ignore()\<close>.
\<close>

definition createCLI :: "string list option \<Rightarrow> session" where
  "createCLI rlHistory =
     ignore True
       \<lparr>started = False, closed = False, isIgnoring = False, didSetError = False,
        dataListeners = [], errorListeners = [errorHandler],
        immediate = createImmediate, historyGuard = createHistory rlHistory,
        attached = True, tasks = [], calls = 0, trace = []\<rparr>"

subsection \<open>Events\<close>

text \<open>
  A session moves by the calls of its operations, by the events of \<open>rl\<close> (delivered while
  the listeners are attached), by promises settling, by microtasks and by the event loop
  running the oldest pending immediate, whose callback is \<open>prompt\<close>.
  \<open>ParserSettled\<close> and \<open>ListenerSettled\<close> are the promise of the parser, or of the
  listener at a position, settling for a task; \<open>Microtask\<close> runs the continuation of a
  task when what it awaits has settled, and does nothing otherwise. An event that names
  no task, or no pending promise, does nothing. The runtime runs a continuation in the
  macrotask in which the promise settled; here any event may come in between, which
  only adds runs. Calls that a listener or the parser makes on the session are events
  like the others, placed after the step that called the listener.
\<close>

datatype event =
    Start "(bool \<times> val) option"
  | Data val
  | Input string
  | Prompt
  | Ignore bool
  | On eventName nat
  | Off eventName nat
  | RlLine string
  | RlHistory "string list"
  | RlClose
  | ParserSettled nat "err + val"
  | ListenerSettled nat nat "err option"
  | Microtask nat
  | RunImmediate

definition parserSettled :: "nat \<Rightarrow> err + val \<Rightarrow> session \<Rightarrow> session" where
  "parserSettled tid r s =
     (if tid < length (tasks s) \<and> stage (tasks s ! tid) = AwaitingParser
         \<and> parsed (tasks s ! tid) = None
      then setTask tid ((tasks s ! tid)\<lparr>parsed := Some r\<rparr>) s
      else s)"

definition listenerSettled :: "world \<Rightarrow> nat \<Rightarrow> nat \<Rightarrow> err option \<Rightarrow> session \<Rightarrow> session" where
  "listenerSettled w tid i r s =
     (if tid < length (tasks s) \<and> i \<in> set (pending (tasks s ! tid))
      then case revision w of
             Cli_ts \<Rightarrow> settled tid i r (tasks s ! tid) s
           | Part_001 \<Rightarrow> settled_wrapped w tid i r (tasks s ! tid) s
      else s)"

definition microtask :: "world \<Rightarrow> nat \<Rightarrow> session \<Rightarrow> session" where
  "microtask w tid s =
     (if tid < length (tasks s)
      then case revision w of
             Cli_ts \<Rightarrow> continue w tid (tasks s ! tid) s
           | Part_001 \<Rightarrow> continue_handleData w tid (tasks s ! tid) s
      else s)"

definition runImmediate :: "session \<Rightarrow> session" where
  "runImmediate s =
     (case fireImmediate (immediate s) of
        (None, im) \<Rightarrow> s
      | (Some callback, im) \<Rightarrow> (prompt s)\<lparr>immediate := im\<rparr>)"

fun step :: "world \<Rightarrow> event \<Rightarrow> session \<Rightarrow> session result" where
  "step w (Start args) s = start w args s"
| "step w (Data d) s = data w d s"
| "step w (Input i) s = input w i s"
| "step w Prompt s = Returned (prompt s)"
| "step w (Ignore v) s = Returned (ignore v s)"
| "step w (On event listener) s = Returned (on event listener s)"
| "step w (Off event listener) s = Returned (off event listener s)"
| "step w (RlLine i) s = (if attached s then handleInput w False i False s else Returned s)"
| "step w (RlHistory h) s =
     Returned (if attached s then s\<lparr>historyGuard := history_set h (historyGuard s)\<rparr> else s)"
| "step w RlClose s = Returned (if attached s then onClose s else s)"
| "step w (ParserSettled tid r) s = Returned (parserSettled tid r s)"
| "step w (ListenerSettled tid i r) s = Returned (listenerSettled w tid i r s)"
| "step w (Microtask tid) s = Returned (microtask w tid s)"
| "step w RunImmediate s = Returned (runImmediate s)"

text \<open>
  A run: the events one after the other. A call that throws leaves the session as it
  was when it threw, and the run goes on from there.
\<close>

fun run :: "world \<Rightarrow> event list \<Rightarrow> session \<Rightarrow> session" where
  "run w [] s = s"
| "run w (ev # evs) s = run w evs (state_of (step w ev s))"

section \<open>Specification vocabulary\<close>

text \<open>
  What a step that leaves the registries alone may add to the trace, seen from the
  session it starts in: \<open>rl.resume()\<close> and \<open>rl.prompt(true)\<close> on a source that is not
  closed, calls of registered listeners, and anything else.
\<close>

fun allowed :: "session \<Rightarrow> action \<Rightarrow> bool" where
  "allowed s RlResume = (\<not> closed s)"
| "allowed s RlPrompt = (\<not> closed s)"
| "allowed s (DataCall l v) = (l \<in> set (dataListeners s))"
| "allowed s (ErrorCall l e) = (l \<in> set (errorListeners s))"
| "allowed s a = True"

text \<open>
  \<open>frame s s'\<close>: from \<open>s\<close> to \<open>s'\<close> the flags \<open>started\<close>, \<open>closed\<close> and
  \<open>didSetError\<close>, the two listener collections and the attachment to \<open>rl\<close> are the
  same, and the trace has grown by allowed actions only.
\<close>

definition frame :: "session \<Rightarrow> session \<Rightarrow> bool" where
  "frame s s' \<longleftrightarrow>
     started s' = started s \<and> closed s' = closed s \<and> didSetError s' = didSetError s
     \<and> dataListeners s' = dataListeners s \<and> errorListeners s' = errorListeners s
     \<and> attached s' = attached s
     \<and> (\<exists>ext. trace s' = trace s @ ext \<and> list_all (allowed s) ext)"

text \<open>The events that change a flag or a collection of the frame.\<close>

fun registryEvent :: "event \<Rightarrow> bool" where
  "registryEvent (Start args) = True"
| "registryEvent (On e l) = True"
| "registryEvent (Off e l) = True"
| "registryEvent RlClose = True"
| "registryEvent ev = False"

text \<open>
  The error listeners a caller registered, and the number of slots the default handler
  occupies.
\<close>

definition callerErrorListeners :: "session \<Rightarrow> errorListener list" where
  "callerErrorListeners s = filter (\<lambda>l. l \<noteq> errorHandler) (errorListeners s)"

definition defaultSlots :: "session \<Rightarrow> nat" where
  "defaultSlots s = count_list (errorListeners s) errorHandler"

definition registry_ok :: "session \<Rightarrow> bool" where
  "registry_ok s \<longleftrightarrow>
     (if didSetError s
      then errorListeners s \<noteq> [] \<and> errorHandler \<notin> set (errorListeners s)
      else errorListeners s = [errorHandler])"

fun isStart :: "event \<Rightarrow> bool" where
  "isStart (Start args) = True"
| "isStart ev = False"

text \<open>A world for concrete runs: no parser, listeners that return at once.\<close>

definition quiet :: world where
  "quiet = \<lparr>revision = Cli_ts, parser = None,
     dataListener = (\<lambda>l v n. Returns ()), errorListener = (\<lambda>l e n. None)\<rparr>"

text \<open>The calls that end the suppression a session is created in.\<close>

fun unsuppresses :: "event \<Rightarrow> bool" where
  "unsuppresses (Start args) = True"
| "unsuppresses (Ignore v) = (\<not> v)"
| "unsuppresses ev = False"

text \<open>
  A session that has not been started and has accepted nothing: it is ignoring, unless
  the source has closed, which detached it.
\<close>

definition suppressed :: "session \<Rightarrow> bool" where
  "suppressed s \<longleftrightarrow>
     \<not> started s \<and> tasks s = [] \<and> (if closed s then \<not> attached s else isIgnoring s)"

text \<open>
  The cleanup has run between \<open>s\<close> and \<open>s'\<close>: the session is not ignoring, the history
  guard is unlocked, the callback scheduled last is pending and tracked, and the trace
  grew by what came before the cleanup, by \<open>rl.resume()\<close> unless the source was closed,
  and after that by nothing but rejections left unhandled.
\<close>

fun isUnhandled :: "action \<Rightarrow> bool" where
  "isUnhandled (Unhandled e) = True"
| "isUnhandled a = False"

definition cleanedUp :: "session \<Rightarrow> session \<Rightarrow> bool" where
  "cleanedUp s s' \<longleftrightarrow>
     \<not> isIgnoring s'
     \<and> lockLength (historyGuard s') = - 1
     \<and> closed s' = closed s
     \<and> (\<exists>q h. imm_queue (immediate s') = q @ [(h, ())] \<and> timer (immediate s') = Some h)
     \<and> (\<exists>before rest.
           trace s' = trace s @ before @ (if closed s then [] else [RlResume]) @ rest
           \<and> list_all isUnhandled rest)"

text \<open>The task \<open>tid\<close> is completed in \<open>s'\<close> and was not in \<open>s\<close>.\<close>

definition completes :: "nat \<Rightarrow> session \<Rightarrow> session \<Rightarrow> bool" where
  "completes tid s s' \<longleftrightarrow>
     tid < length (tasks s') \<and> stage (tasks s' ! tid) = Completed
     \<and> (if tid < length (tasks s) then stage (tasks s ! tid) \<noteq> Completed else True)"

text \<open>The task \<open>tid\<close> waits for nothing but its microtask.\<close>

definition ready :: "task \<Rightarrow> bool" where
  "ready t \<longleftrightarrow>
     (case stage t of
        AwaitingParser \<Rightarrow> parsed t \<noteq> None
      | AwaitingListeners \<Rightarrow> pending t = [] \<or> rejected t \<noteq> None
      | Completed \<Rightarrow> False)"

fun dataCalls :: "action list \<Rightarrow> (nat \<times> val) list" where
  "dataCalls [] = []"
| "dataCalls (DataCall l v # as) = (l, v) # dataCalls as"
| "dataCalls (a # as) = dataCalls as"

fun errorCalls :: "action list \<Rightarrow> (errorListener \<times> err) list" where
  "errorCalls [] = []"
| "errorCalls (ErrorCall l e # as) = (l, e) # errorCalls as"
| "errorCalls (a # as) = errorCalls as"

text \<open>Worlds for concrete runs: the first data listener throws; both reject later.\<close>

definition throwing :: "revision \<Rightarrow> world" where
  "throwing r = \<lparr>revision = r, parser = None,
     dataListener = (\<lambda>l v n. if l = 1 then Throws ''boom'' else Returns ()),
     errorListener = (\<lambda>l e n. None)\<rparr>"

definition pending_world :: "revision \<Rightarrow> world" where
  "pending_world r = \<lparr>revision = r, parser = None,
     dataListener = (\<lambda>l v n. Promise), errorListener = (\<lambda>l e n. None)\<rparr>"

text \<open>
  A session whose parser returned a promise for the line accepted, and a session with
  one data listener whose promise is pending: created, started, and one line of the
  source accepted.
\<close>

definition parsing_world :: "revision \<Rightarrow> world" where
  "parsing_world r = \<lparr>revision = r, parser = Some (\<lambda>i n. Promise),
     dataListener = (\<lambda>l v n. Returns ()), errorListener = (\<lambda>l e n. None)\<rparr>"

definition parsing :: "revision \<Rightarrow> session" where
  "parsing r = run (parsing_world r) [Start None, RlLine ''x''] (createCLI None)"

definition inflight :: "revision \<Rightarrow> session" where
  "inflight r =
     run (pending_world r) [On DataEvent 1, Start None, RlLine ''x''] (createCLI None)"

text \<open>
  A session whose source has closed, with the registries as the close handler leaves
  them; the registrations of listeners; and the actions that touch neither the closed
  source nor a listener of the caller.
\<close>

definition closedDown :: "session \<Rightarrow> bool" where
  "closedDown s \<longleftrightarrow>
     closed s \<and> \<not> attached s \<and> dataListeners s = [] \<and> errorListeners s = [errorHandler]"

fun isOn :: "event \<Rightarrow> bool" where
  "isOn (On e l) = True"
| "isOn ev = False"

fun afterCloseAction :: "action \<Rightarrow> bool" where
  "afterCloseAction RlResume = False"
| "afterCloseAction RlPrompt = False"
| "afterCloseAction (DataCall l v) = False"
| "afterCloseAction (ErrorCall l e) = (l = errorHandler)"
| "afterCloseAction a = True"

text \<open>Two listeners that return promises and one error listener, one value submitted.\<close>

definition twoPending :: "revision \<Rightarrow> session" where
  "twoPending r =
     run (pending_world r)
       [On DataEvent 1, On DataEvent 2, On ErrorEvent 7, Start None, Data ''x'']
       (createCLI None)"

text \<open>
  Two ignoring sessions. In \<open>twoPrompts\<close> two values were submitted one after the other
  and both completed before \<open>ignore()\<close>: two prompts are pending, the second tracked.
  In \<open>busyIgnoring\<close> a data listener is registered, one line was processed (its prompt
  is pending), \<open>ignore()\<close> was called, and the history has grown by a line since. In
  \<open>typedEarly\<close> the history has grown before \<open>start()\<close>.
\<close>

definition twoPrompts :: session where
  "twoPrompts =
     run quiet [Start None, Data ''x'', Data ''y'', Microtask 0, Microtask 1, Ignore True]
       (createCLI None)"

definition busyIgnoring :: session where
  "busyIgnoring =
     run quiet
       [On DataEvent 1, Start None, RlHistory [''a'', ''old''], RlLine ''a'', Microtask 0,
        Ignore True, RlHistory [''b'', ''a'', ''old'']]
       (createCLI (Some [''old'']))"

definition typedEarly :: session where
  "typedEarly = run quiet [RlHistory [''a'']] (createCLI (Some []))"

section \<open>Properties of the deferred callback\<close>

lemma tidy_clear: "tidy im \<Longrightarrow> imm_queue (immediate_clear im) = []"
  by (cases "imm_queue im")
     (auto simp: tidy_def immediate_clear_def clearImmediate_def list_all_iff filter_empty_conv
        split: option.splits)

text \<open>
  C1, as stated, fails: \<open>set\<close> overwrites \<open>timer\<close> and leaves the callback scheduled
  before it pending. After \<open>set(f); set(g)\<close> the next macrotask boundary runs \<open>f\<close>, and
  the \<open>clear\<close> that follows \<open>f\<close> in its wrapper cancels \<open>g\<close>, the callback scheduled last.
\<close>

theorem schedule_does_not_cancel_counterexample:
  "fst (runImmediates (immediate_set ''g'' (immediate_set ''f'' createImmediate))) = [''f'']"
  by (simp add: immediate_set_def createImmediate_def immediate_clear_def clearImmediate_def)

text \<open>
  Scheduling the same function three times runs it twice at one macrotask boundary: the
  first run cancels the third, the second is not tracked any more.
\<close>

lemma schedule_thrice_runs_twice:
  "fst (runImmediates (immediate_set ''g'' (immediate_set ''g''
     (immediate_set ''g'' createImmediate)))) = [''g'', ''g'']"
  by (simp add: immediate_set_def createImmediate_def immediate_clear_def clearImmediate_def)

text \<open>
  C1, amended. Scheduling does not cancel: after \<open>set(f); set(g)\<close> on a new deferred
  callback the macrotask boundary runs \<open>f\<close> alone. Cancelling is what \<open>clear\<close> does, for
  the callback scheduled last: when nothing is pending but that callback, \<open>clear()\<close>
  followed by \<open>set(g)\<close> leaves \<open>g\<close> alone pending, and the macrotask boundary runs \<open>g\<close>
  exactly once and nothing else, after which nothing is pending.
\<close>

theorem cancel_then_schedule:
  "(tidy im \<longrightarrow>
      runImmediates (immediate_set g (immediate_clear im))
        = ([g], \<lparr>timer = None, imm_queue = [], imm_fresh = Suc (imm_fresh im)\<rparr>))
   \<and> fst (runImmediates (immediate_set g (immediate_set f createImmediate))) = [f]"
proof (intro conjI impI)
  assume "tidy im"
  then have q: "imm_queue (immediate_clear im) = []" by (rule tidy_clear)
  have "timer (immediate_clear im) = None"
    and "imm_fresh (immediate_clear im) = imm_fresh im"
    by (simp_all add: immediate_clear_def split: option.splits)
  with q have c: "immediate_clear im
      = \<lparr>timer = None, imm_queue = [], imm_fresh = imm_fresh im\<rparr>"
    by (cases "immediate_clear im") simp
  show "runImmediates (immediate_set g (immediate_clear im))
        = ([g], \<lparr>timer = None, imm_queue = [], imm_fresh = Suc (imm_fresh im)\<rparr>)"
    unfolding c by (simp add: immediate_set_def immediate_clear_def clearImmediate_def)
next
  show "fst (runImmediates (immediate_set g (immediate_set f createImmediate))) = [f]"
    by (simp add: immediate_set_def createImmediate_def immediate_clear_def clearImmediate_def)
qed

theorem cancel_then_schedule_witness:
  "tidy (immediate_set ''f'' createImmediate)
   \<and> runImmediates (immediate_set ''g'' (immediate_clear (immediate_set ''f'' createImmediate)))
       = ([''g''], \<lparr>timer = None, imm_queue = [], imm_fresh = 2\<rparr>)"
  using cancel_then_schedule [of "immediate_set ''f'' createImmediate" "''g''" "''f''"]
  by (simp add: tidy_def immediate_set_def createImmediate_def)

section \<open>Properties of the history guard\<close>

lemma history_restore_unlocked: "\<not> locked g \<Longrightarrow> history_restore g = g"
  by (auto simp: history_restore_def locked_def split: option.splits)

text \<open>
  C3. On a locked guard whose bound sequence is at least as long as the watermark,
  \<open>restore\<close> removes the leading entries, as many as the sequence has grown by since
  \<open>lock\<close>, so that the length left is the watermark; when the sequence grew at the front
  (where the terminal puts a new line), what is left is the sequence as it was at
  \<open>lock\<close>. On a guard that is not locked (no watermark, or no sequence bound),
  \<open>restore\<close> changes nothing.
\<close>

theorem restore_truncates_to_watermark:
  "(locked g \<and> history g = Some xs \<and> lockLength g \<le> int (length xs) \<longrightarrow>
      (\<exists>removed kept. xs = removed @ kept
          \<and> history_restore g = g\<lparr>history := Some kept\<rparr>
          \<and> int (length kept) = lockLength g
          \<and> int (length removed) = int (length xs) - lockLength g
          \<and> (\<forall>added old. xs = added @ old \<and> int (length old) = lockLength g
                \<longrightarrow> kept = old)))
   \<and> (\<not> locked g \<longrightarrow> history_restore g = g)"
proof (intro conjI impI)
  assume a: "locked g \<and> history g = Some xs \<and> lockLength g \<le> int (length xs)"
  let ?n = "nat (int (length xs) - lockLength g)"
  have l: "0 \<le> lockLength g" using a by (simp add: locked_def)
  have r: "history_restore g = g\<lparr>history := Some (drop ?n xs)\<rparr>"
    using a l by (simp add: history_restore_def splice0_def locked_def)
  have "xs = take ?n xs @ drop ?n xs" by simp
  moreover have "int (length (drop ?n xs)) = lockLength g" using a l by simp
  moreover have "int (length (take ?n xs)) = int (length xs) - lockLength g"
    using a l by simp
  moreover have "\<forall>added old. xs = added @ old \<and> int (length old) = lockLength g
                \<longrightarrow> drop ?n xs = old"
    by auto
  ultimately show "\<exists>removed kept. xs = removed @ kept
          \<and> history_restore g = g\<lparr>history := Some kept\<rparr>
          \<and> int (length kept) = lockLength g
          \<and> int (length removed) = int (length xs) - lockLength g
          \<and> (\<forall>added old. xs = added @ old \<and> int (length old) = lockLength g
                \<longrightarrow> kept = old)"
    using r by blast
next
  assume "\<not> locked g" then show "history_restore g = g"
    by (rule history_restore_unlocked)
qed

theorem restore_truncates_to_watermark_witness:
  "locked \<lparr>history = Some [''c'', ''b'', ''a''], lockLength = 1\<rparr>
   \<and> history_restore \<lparr>history = Some [''c'', ''b'', ''a''], lockLength = 1\<rparr>
       = \<lparr>history = Some [''a''], lockLength = 1\<rparr>
   \<and> \<not> locked \<lparr>history = None, lockLength = 1\<rparr>
   \<and> history_restore \<lparr>history = None, lockLength = 1\<rparr>
       = \<lparr>history = None, lockLength = 1\<rparr>"
  using restore_truncates_to_watermark
    [of "\<lparr>history = Some [''c'', ''b'', ''a''], lockLength = 1\<rparr>" "[''c'', ''b'', ''a'']"]
    restore_truncates_to_watermark
    [of "\<lparr>history = None, lockLength = 1\<rparr>" "[]"]
  by (simp add: locked_def history_restore_def splice0_def)

section \<open>Frame lemmas\<close>

lemma allowed_cong:
  "closed s' = closed s \<Longrightarrow> dataListeners s' = dataListeners s
   \<Longrightarrow> errorListeners s' = errorListeners s \<Longrightarrow> allowed s' = allowed s"
proof
  fix a assume "closed s' = closed s" "dataListeners s' = dataListeners s"
    "errorListeners s' = errorListeners s"
  then show "allowed s' a = allowed s a" by (cases a) simp_all
qed

lemma frame_refl [simp]: "frame s s"
  by (simp add: frame_def)

lemma frame_trans: "frame s s1 \<Longrightarrow> frame s1 s2 \<Longrightarrow> frame s s2"
proof -
  assume a: "frame s s1" and b: "frame s1 s2"
  from a have eq: "allowed s1 = allowed s" by (intro allowed_cong) (simp_all add: frame_def)
  from a obtain e1 where e1: "trace s1 = trace s @ e1" "list_all (allowed s) e1"
    by (auto simp: frame_def)
  from b obtain e2 where e2: "trace s2 = trace s1 @ e2" "list_all (allowed s1) e2"
    by (auto simp: frame_def)
  have "trace s2 = trace s @ (e1 @ e2) \<and> list_all (allowed s) (e1 @ e2)"
    using e1 e2 eq by simp
  then have "\<exists>ext. trace s2 = trace s @ ext \<and> list_all (allowed s) ext" by blast
  then show ?thesis using a b by (simp add: frame_def)
qed

lemma frame_silent:
  "started s' = started s \<Longrightarrow> closed s' = closed s \<Longrightarrow> didSetError s' = didSetError s
   \<Longrightarrow> dataListeners s' = dataListeners s \<Longrightarrow> errorListeners s' = errorListeners s
   \<Longrightarrow> attached s' = attached s \<Longrightarrow> trace s' = trace s \<Longrightarrow> frame s s'"
  by (simp add: frame_def)

lemma frame_emit: "allowed s a \<Longrightarrow> frame s (emit a s)"
  by (simp add: frame_def emit_def)

lemma frame_called: "allowed s a \<Longrightarrow> frame s (called a s)"
  by (simp add: frame_def called_def)

lemma frame_setTask [simp]: "frame s (setTask tid t s)"
  by (simp add: frame_silent setTask_def)

lemma frame_resume [simp]: "frame s (resume s)"
  by (simp add: resume_def frame_emit)

lemma frame_prompt [simp]: "frame s (prompt s)"
  by (simp add: prompt_def frame_emit)

lemma frame_ignore [simp]: "frame s (ignore v s)"
proof (cases v)
  case True
  have "frame s (s\<lparr>isIgnoring := True, historyGuard := history_lock (historyGuard s)\<rparr>)"
    by (simp add: frame_silent)
  then show ?thesis using True
    by (auto simp: ignore_def intro: frame_trans frame_resume)
next
  case False
  then show ?thesis by (simp add: ignore_def frame_silent)
qed

lemma frame_cleanup [simp]: "frame s (cleanup s)"
proof -
  let ?s2 = "resume (ignore False s)"
  have "frame s ?s2" by (rule frame_trans [OF frame_ignore frame_resume])
  moreover have "frame ?s2 (?s2\<lparr>immediate := immediate_set () (immediate ?s2)\<rparr>)"
    by (simp add: frame_silent)
  ultimately show ?thesis by (simp add: cleanup_def Let_def frame_trans)
qed

lemma frame_callErrorListeners:
  "set ls \<subseteq> set (errorListeners s) \<Longrightarrow> frame s (fst (callErrorListeners w ls e s))"
proof (induction ls arbitrary: s)
  case Nil
  then show ?case by simp
next
  case (Cons l ls)
  let ?s1 = "called (ErrorCall l e) s"
  have f1: "frame s ?s1" using Cons.prems by (simp add: frame_called)
  then have "set ls \<subseteq> set (errorListeners ?s1)" using Cons.prems by (simp add: frame_def)
  then have "frame ?s1 (fst (callErrorListeners w ls e ?s1))" by (rule Cons.IH)
  with f1 have "frame s (fst (callErrorListeners w ls e ?s1))" by (rule frame_trans)
  with f1 show ?case by (simp split: option.splits errorListener.splits)
qed

lemma frame_notifyError [simp]: "frame s (fst (notifyError w e s))"
  by (simp add: notifyError_def frame_callErrorListeners)

lemma frame_callDataListeners:
  "set ls \<subseteq> set (dataListeners s) \<Longrightarrow> frame s (fst (callDataListeners w ls v i s))"
proof (induction ls arbitrary: s i)
  case Nil
  then show ?case by simp
next
  case (Cons l ls)
  let ?s1 = "called (DataCall l v) s"
  have f1: "frame s ?s1" using Cons.prems by (simp add: frame_called)
  then have "set ls \<subseteq> set (dataListeners ?s1)" using Cons.prems by (simp add: frame_def)
  then have "frame ?s1 (fst (callDataListeners w ls v (Suc i) ?s1))" by (rule Cons.IH)
  with f1 have "frame s (fst (callDataListeners w ls v (Suc i) ?s1))" by (rule frame_trans)
  with f1 show ?case by (simp add: split_beta split: returned.splits)
qed

lemma frame_wrapDataListeners:
  "set ls \<subseteq> set (dataListeners s) \<Longrightarrow> frame s (fst (wrapDataListeners w ls v i s))"
proof (induction ls arbitrary: s i)
  case Nil
  then show ?case by simp
next
  case (Cons l ls)
  let ?s1 = "called (DataCall l v) s"
  let ?s2 = "fst (notifyError w e ?s1)"
  have f1: "frame s ?s1" using Cons.prems by (simp add: frame_called)
  then have sub1: "set ls \<subseteq> set (dataListeners ?s1)" using Cons.prems by (simp add: frame_def)
  then have "frame ?s1 (fst (wrapDataListeners w ls v (Suc i) ?s1))" by (rule Cons.IH)
  with f1 have a: "frame s (fst (wrapDataListeners w ls v (Suc i) ?s1))" by (rule frame_trans)
  have b: "frame s (fst (wrapDataListeners w ls v (Suc i) (fst (notifyError w x ?s1))))" for x
  proof -
    have f2: "frame s (fst (notifyError w x ?s1))"
      by (rule frame_trans [OF f1 frame_notifyError])
    then have "set ls \<subseteq> set (dataListeners (fst (notifyError w x ?s1)))"
      using Cons.prems by (simp add: frame_def)
    then have "frame (fst (notifyError w x ?s1))
        (fst (wrapDataListeners w ls v (Suc i) (fst (notifyError w x ?s1))))" by (rule Cons.IH)
    with f2 show ?thesis by (rule frame_trans)
  qed
  show ?case using a b by (simp add: split_beta split: returned.splits)
qed

lemma frame_fields:
  "frame s s' \<Longrightarrow> started s' = started s \<and> closed s' = closed s
     \<and> didSetError s' = didSetError s \<and> dataListeners s' = dataListeners s
     \<and> errorListeners s' = errorListeners s \<and> attached s' = attached s"
  by (simp add: frame_def)

lemma frame_allowed: "frame s s' \<Longrightarrow> allowed s' = allowed s"
  by (intro allowed_cong) (simp_all add: frame_def)

lemma after_setTask [simp]: "frame s s1 \<Longrightarrow> frame s (setTask tid t s1)"
  by (erule frame_trans) simp

lemma after_emit [simp]: "frame s s1 \<Longrightarrow> allowed s a \<Longrightarrow> frame s (emit a s1)"
proof -
  assume f: "frame s s1" and a: "allowed s a"
  then have "allowed s1 a" by (simp add: frame_allowed)
  then have "frame s1 (emit a s1)" by (rule frame_emit)
  with f show ?thesis by (rule frame_trans)
qed

lemma after_called [simp]: "frame s s1 \<Longrightarrow> allowed s a \<Longrightarrow> frame s (called a s1)"
proof -
  assume f: "frame s s1" and a: "allowed s a"
  then have "allowed s1 a" by (simp add: frame_allowed)
  then have "frame s1 (called a s1)" by (rule frame_called)
  with f show ?thesis by (rule frame_trans)
qed

lemma after_cleanup [simp]: "frame s s1 \<Longrightarrow> frame s (cleanup s1)"
  by (erule frame_trans) simp

lemma after_notifyError [simp]: "frame s s1 \<Longrightarrow> frame s (fst (notifyError w e s1))"
  by (erule frame_trans) simp

lemma after_prompt [simp]: "frame s s1 \<Longrightarrow> frame s (prompt s1)"
  by (erule frame_trans) simp

lemma after_ignore [simp]: "frame s s1 \<Longrightarrow> frame s (ignore v s1)"
  by (erule frame_trans) simp

lemma after_callDataListeners [simp]:
  "frame s s1 \<Longrightarrow> frame s (fst (callDataListeners w (dataListeners s1) v i s1))"
  by (erule frame_trans) (simp add: frame_callDataListeners)

lemma after_wrapDataListeners [simp]:
  "frame s s1 \<Longrightarrow> frame s (fst (wrapDataListeners w (dataListeners s1) v i s1))"
  by (erule frame_trans) (simp add: frame_wrapDataListeners)

lemma after_catchFinally [simp]: "frame s s1 \<Longrightarrow> frame s (catchFinally w r s1)"
  by (cases r) (simp_all add: catchFinally_def split_beta split: option.splits)

lemma after_notifyAll [simp]: "frame s s1 \<Longrightarrow> frame s (notifyAll w tid v s1)"
  by (simp add: notifyAll_def split_beta split: option.splits)

lemma after_asyncBody [simp]: "frame s s1 \<Longrightarrow> frame s (asyncBody w tid isParsed i s1)"
  by (simp add: asyncBody_def split: option.splits returned.splits)

lemma frame_continue [simp]: "frame s (continue w tid t s)"
  by (simp add: continue_def split: stage.splits option.splits sum.splits)

lemma frame_settled [simp]: "frame s (settled tid i r t s)"
  by (simp add: settled_def Let_def split: option.splits)

lemma after_notifyAll_wrapped [simp]:
  "frame s s1 \<Longrightarrow> frame s (notifyAll_wrapped w tid v s1)"
  by (simp add: notifyAll_wrapped_def split_beta)

lemma after_handleData [simp]: "frame s s1 \<Longrightarrow> frame s (handleData w tid parse i s1)"
  by (simp add: handleData_def split_beta split: option.splits returned.splits)

lemma frame_continue_handleData [simp]: "frame s (continue_handleData w tid t s)"
  by (simp add: continue_handleData_def split_beta
        split: stage.splits option.splits sum.splits)

lemma frame_settled_wrapped [simp]: "frame s (settled_wrapped w tid i r t s)"
  by (simp add: settled_wrapped_def Let_def split_beta split: option.splits)

lemma after_handleInput [simp]:
  "frame s s1 \<Longrightarrow> frame s (state_of (handleInput w isParsed i tse s1))"
proof -
  assume f: "frame s s1"
  let ?s1 = "s1\<lparr>immediate := immediate_clear (immediate s1)\<rparr>"
  let ?s3 = "(emit RlPause ?s1)\<lparr>tasks := tasks (emit RlPause ?s1) @ [awaitingParser None]\<rparr>"
  have a: "frame s ?s1" by (rule frame_trans [OF f]) (simp add: frame_silent)
  have b: "frame s (?s1\<lparr>historyGuard := history_restore (historyGuard ?s1)\<rparr>)"
    by (rule frame_trans [OF f]) (simp add: frame_silent)
  have "frame s (emit RlPause ?s1)" using a by simp
  then have c: "frame s ?s3" by (rule frame_trans) (simp add: frame_silent)
  show ?thesis using f b c
    by (simp add: handleInput_def Let_def split: revision.splits)
qed

lemma frame_parserSettled [simp]: "frame s (parserSettled tid r s)"
  by (simp add: parserSettled_def)

lemma frame_listenerSettled [simp]: "frame s (listenerSettled w tid i r s)"
  by (simp add: listenerSettled_def split: revision.splits)

lemma frame_microtask [simp]: "frame s (microtask w tid s)"
  by (simp add: microtask_def split: revision.splits)

lemma frame_runImmediate [simp]: "frame s (runImmediate s)"
proof -
  have "frame s ((prompt s)\<lparr>immediate := im\<rparr>)" for im
    by (rule frame_trans [OF frame_prompt]) (simp add: frame_silent)
  then show ?thesis
    by (simp add: runImmediate_def split: prod.splits option.splits)
qed

lemma frame_step: "\<not> registryEvent ev \<Longrightarrow> frame s (state_of (step w ev s))"
  by (cases ev) (simp_all add: data_def input_def frame_silent)

lemma frame_start:
  "frame (s\<lparr>started := True\<rparr>) (state_of (start w args s))"
proof (cases "started s")
  case True
  then have "s\<lparr>started := True\<rparr> = s" by simp
  then have "frame (s\<lparr>started := True\<rparr>) s" by simp
  with True show ?thesis by (simp add: start_def)
next
  case False
  then show ?thesis
    by (simp add: start_def Let_def split: option.splits prod.splits)
qed

section \<open>The listener registry\<close>

lemma registry_ok_frame: "frame s s' \<Longrightarrow> registry_ok s \<Longrightarrow> registry_ok s'"
  by (simp add: registry_ok_def frame_def)

lemma registry_ok_on: "registry_ok s \<Longrightarrow> registry_ok (on ev l s)"
  by (cases ev) (auto simp: registry_ok_def on_def Let_def)

lemma registry_ok_off: "registry_ok s \<Longrightarrow> registry_ok (off ev l s)"
  by (cases ev) (auto simp: registry_ok_def off_def Let_def dest: notin_set_remove1)

lemma registry_ok_onClose: "registry_ok (onClose s)"
  by (simp add: registry_ok_def onClose_def emit_def Let_def)

lemma registry_ok_step: "registry_ok s \<Longrightarrow> registry_ok (state_of (step w ev s))"
proof (cases "registryEvent ev")
  case False
  assume "registry_ok s"
  with frame_step [OF False] show ?thesis by (rule registry_ok_frame)
next
  case True
  assume r: "registry_ok s"
  from True show ?thesis
  proof (cases ev)
    case (Start args)
    have "registry_ok (s\<lparr>started := True\<rparr>)" using r by (simp add: registry_ok_def)
    with frame_start have "registry_ok (state_of (start w args s))"
      by (rule registry_ok_frame)
    with Start show ?thesis by simp
  next
    case (On e l)
    with r show ?thesis by (simp add: registry_ok_on)
  next
    case (Off e l)
    with r show ?thesis by (simp add: registry_ok_off)
  next
    case RlClose
    with r show ?thesis by (simp add: registry_ok_onClose)
  qed simp_all
qed

lemma registry_ok_run: "registry_ok s \<Longrightarrow> registry_ok (run w evs s)"
  by (induction evs arbitrary: s) (simp_all add: registry_ok_step)

lemma registry_ok_createCLI: "registry_ok (createCLI h)"
  by (simp add: registry_ok_def createCLI_def ignore_def resume_def emit_def)

lemma registry_ok_default:
  "registry_ok s \<Longrightarrow>
     defaultSlots s \<le> 1
     \<and> (defaultSlots s = 1) = (callerErrorListeners s = [])
     \<and> (callerErrorListeners s = [] \<longrightarrow> errorListeners s = [errorHandler])
     \<and> (callerErrorListeners s \<noteq> [] \<longrightarrow> errorListeners s = callerErrorListeners s)"
proof (cases "didSetError s")
  case False
  assume "registry_ok s"
  with False have "errorListeners s = [errorHandler]" by (simp add: registry_ok_def)
  then show ?thesis by (simp add: defaultSlots_def callerErrorListeners_def)
next
  case True
  assume "registry_ok s"
  with True have n: "errorListeners s \<noteq> []" and d: "errorHandler \<notin> set (errorListeners s)"
    by (simp_all add: registry_ok_def)
  from d have f: "callerErrorListeners s = errorListeners s"
    by (auto simp: callerErrorListeners_def intro: filter_True)
  from d have "defaultSlots s = 0" by (simp add: defaultSlots_def count_list_0_iff)
  with f n show ?thesis by simp
qed

lemma on_first_removes_default:
  "registry_ok s \<Longrightarrow> callerErrorListeners s = []
   \<Longrightarrow> errorListeners (on ErrorEvent n s) = [Custom n]"
proof -
  assume r: "registry_ok s" and c: "callerErrorListeners s = []"
  then have e: "errorListeners s = [errorHandler]"
    using registry_ok_default [OF r] by simp
  with r have "\<not> didSetError s" by (auto simp: registry_ok_def split: if_splits)
  with e show ?thesis by (simp add: on_def)
qed

lemma off_last_reinstates_default:
  "registry_ok s \<Longrightarrow> callerErrorListeners s = [Custom n]
   \<Longrightarrow> errorListeners (off ErrorEvent n s) = [errorHandler]
       \<and> \<not> didSetError (off ErrorEvent n s)"
proof -
  assume r: "registry_ok s" and c: "callerErrorListeners s = [Custom n]"
  then have "errorListeners s = [Custom n]"
    using registry_ok_default [OF r] by simp
  then show ?thesis by (simp add: off_def)
qed

text \<open>
  C4. In every state a session reaches from \<open>createCLI\<close>, by any events, the default
  handler occupies at most one slot of the error listeners, and exactly one if and only
  if no error listener of the caller is registered; the first \<open>on('error', fn)\<close> then
  leaves \<open>fn\<close> alone, without the default, and \<open>off('error', fn)\<close> of the last error
  listener of the caller leaves the default alone.
\<close>

theorem default_handler_iff_no_caller_listener:
  "defaultSlots (run w evs (createCLI h)) \<le> 1
   \<and> (defaultSlots (run w evs (createCLI h)) = 1)
       = (callerErrorListeners (run w evs (createCLI h)) = [])
   \<and> (callerErrorListeners (run w evs (createCLI h)) = [] \<longrightarrow>
        errorListeners (state_of (step w (On ErrorEvent n) (run w evs (createCLI h))))
          = [Custom n])
   \<and> (callerErrorListeners (run w evs (createCLI h)) = [Custom n] \<longrightarrow>
        errorListeners (state_of (step w (Off ErrorEvent n) (run w evs (createCLI h))))
          = [errorHandler])"
proof -
  have r: "registry_ok (run w evs (createCLI h))"
    by (rule registry_ok_run [OF registry_ok_createCLI])
  show ?thesis
    using registry_ok_default [OF r] on_first_removes_default [OF r]
      off_last_reinstates_default [OF r]
    by simp
qed

theorem default_handler_iff_no_caller_listener_witness:
  "callerErrorListeners (run quiet [On ErrorEvent 1, Off ErrorEvent 1] (createCLI None)) = []
   \<and> defaultSlots (run quiet [On ErrorEvent 1, Off ErrorEvent 1] (createCLI None)) = 1
   \<and> errorListeners (run quiet [On ErrorEvent 1, Off ErrorEvent 1, On ErrorEvent 2]
        (createCLI None)) = [Custom 2]
   \<and> callerErrorListeners (run quiet [On ErrorEvent 1] (createCLI None)) = [Custom 1]
   \<and> errorListeners (run quiet [On ErrorEvent 1, Off ErrorEvent 1] (createCLI None))
        = [errorHandler]"
  using default_handler_iff_no_caller_listener
    [of quiet "[On ErrorEvent 1, Off ErrorEvent 1]" None 2]
    default_handler_iff_no_caller_listener [of quiet "[On ErrorEvent 1]" None 1]
  by (simp add: callerErrorListeners_def createCLI_def ignore_def resume_def emit_def
      on_def off_def)

section \<open>Before and after \<open>start\<close>\<close>

lemma started_step:
  "started (state_of (step w ev s)) = (started s \<or> isStart ev)"
proof (cases "registryEvent ev")
  case False
  from frame_step [OF False] have "started (state_of (step w ev s)) = started s"
    by (simp add: frame_def)
  moreover from False have "\<not> isStart ev" by (cases ev) simp_all
  ultimately show ?thesis by simp
next
  case True
  then show ?thesis
  proof (cases ev)
    case (Start args)
    from frame_start [of s w args] have "started (state_of (start w args s))"
      by (simp add: frame_def)
    with Start show ?thesis by simp
  next
    case (On e l)
    then show ?thesis by (simp add: on_def Let_def)
  next
    case (Off e l)
    then show ?thesis by (simp add: off_def Let_def)
  next
    case RlClose
    then show ?thesis by (simp add: onClose_def emit_def Let_def)
  qed simp_all
qed

lemma started_run:
  "started (run w evs s) = (started s \<or> list_ex isStart evs)"
  by (induction evs arbitrary: s) (auto simp: started_step)

lemma started_createCLI: "\<not> started (createCLI h)"
  by (simp add: createCLI_def ignore_def resume_def emit_def)

text \<open>
  C5. On a session on which \<open>start\<close> has not been called, \<open>data(v)\<close> and
  \<open>input(text)\<close> throw the usage error to the caller and leave the session as it was:
  nothing is added to the trace (no listener is called, nothing reaches the error
  listeners), no task is created. A session is in that state from \<open>createCLI\<close> on, as
  long as no event was a call of \<open>start\<close>.
\<close>

theorem input_before_start_throws:
  "(\<not> started s \<longrightarrow>
      step w (Data v) s = Thrown startError s \<and> step w (Input text) s = Thrown startError s
      \<and> trace (state_of (step w (Data v) s)) = trace s
      \<and> trace (state_of (step w (Input text) s)) = trace s)
   \<and> (\<not> list_ex isStart evs \<longrightarrow> \<not> started (run w evs (createCLI h)))"
  by (simp add: data_def input_def handleInput_def started_run started_createCLI)

theorem input_before_start_throws_witness:
  "\<not> started (run quiet [On DataEvent 1, On ErrorEvent 2, RlLine ''a''] (createCLI None))
   \<and> step quiet (Data ''x'') (run quiet [On DataEvent 1, On ErrorEvent 2, RlLine ''a''] (createCLI None))
       = Thrown startError (run quiet [On DataEvent 1, On ErrorEvent 2, RlLine ''a''] (createCLI None))
   \<and> trace (state_of (step quiet (Input ''x'')
        (run quiet [On DataEvent 1, On ErrorEvent 2, RlLine ''a''] (createCLI None))))
       = [RlResume]"
proof -
  let ?s = "run quiet [On DataEvent 1, On ErrorEvent 2, RlLine ''a''] (createCLI None)"
  have t: "trace ?s = [RlResume]"
    by (simp add: createCLI_def ignore_def resume_def emit_def on_def handleInput_def)
  have n: "\<not> list_ex isStart [On DataEvent 1, On ErrorEvent 2, RlLine ''a'']" by simp
  from input_before_start_throws
    [of ?s quiet "''x''" "''x''" "[On DataEvent 1, On ErrorEvent 2, RlLine ''a'']" None]
  show ?thesis using t n by simp
qed

text \<open>
  C6, as stated, fails in two ways. \<open>immediate.clear()\<close> cancels the tracked callback
  only: after \<open>start(); data('x'); data('y')\<close>, both completed, and \<open>ignore()\<close>, two
  prompts are pending; a line of the source is discarded, but the prompt scheduled
  first stays pending and the event loop runs it. And before \<open>start()\<close> a value
  injected by \<open>data\<close> while the session is ignoring throws the usage error at once:
  \<open>history.restore()\<close> is not called, and the line that the history has grown by
  stays in it.
\<close>

theorem ignored_line_leaves_a_prompt_counterexample:
  "isIgnoring twoPrompts \<and> attached twoPrompts
   \<and> imm_queue (immediate twoPrompts) = [(0, ()), (1, ())]
   \<and> timer (immediate twoPrompts) = Some 1
   \<and> imm_queue (immediate (state_of (step quiet (RlLine ''z'') twoPrompts))) = [(0, ())]
   \<and> trace (run quiet [RlLine ''z'', RunImmediate] twoPrompts)
       = trace twoPrompts @ [RlPrompt]
   \<and> isIgnoring typedEarly
   \<and> step quiet (Data ''a'') typedEarly = Thrown startError typedEarly
   \<and> historyGuard typedEarly = \<lparr>history = Some [''a''], lockLength = 0\<rparr>
   \<and> history_restore (historyGuard typedEarly) = \<lparr>history = Some [], lockLength = 0\<rparr>"
  by code_simp

text \<open>
  C6, amended. While the session is ignoring, a line of the source, and a value or an
  input injected after \<open>start\<close>, does this and nothing else: \<open>immediate.clear()\<close> and
  \<open>history.restore()\<close>. The trace is as before (the source is not paused, no parser and
  no listener is called), no task is created, the session is still ignoring, and no
  handle is tracked any more: the callback that was tracked, the one scheduled last, is
  cancelled, and what else was pending stays pending. So nothing is pending any more
  when nothing was pending but the tracked callback.
\<close>

theorem ignored_input_is_discarded:
  "isIgnoring s \<and> (ev = RlLine text \<and> attached s \<or> (ev = Data text \<or> ev = Input text) \<and> started s)
   \<longrightarrow> step w ev s = Returned (s\<lparr>immediate := immediate_clear (immediate s),
                                 historyGuard := history_restore (historyGuard s)\<rparr>)
     \<and> trace (state_of (step w ev s)) = trace s
     \<and> tasks (state_of (step w ev s)) = tasks s
     \<and> isIgnoring (state_of (step w ev s))
     \<and> timer (immediate (state_of (step w ev s))) = None
     \<and> imm_queue (immediate (state_of (step w ev s)))
         = (case timer (immediate s) of
              None \<Rightarrow> imm_queue (immediate s)
            | Some h \<Rightarrow> filter (\<lambda>p. fst p \<noteq> h) (imm_queue (immediate s)))
     \<and> (tidy (immediate s) \<longrightarrow> imm_queue (immediate (state_of (step w ev s))) = [])"
proof (intro impI)
  assume a: "isIgnoring s \<and> (ev = RlLine text \<and> attached s
      \<or> (ev = Data text \<or> ev = Input text) \<and> started s)"
  then have r: "step w ev s = Returned (s\<lparr>immediate := immediate_clear (immediate s),
                                 historyGuard := history_restore (historyGuard s)\<rparr>)"
    by (auto simp: data_def input_def handleInput_def)
  have t: "timer (immediate_clear (immediate s)) = None"
    by (simp add: immediate_clear_def split: option.splits)
  have q: "imm_queue (immediate_clear (immediate s))
         = (case timer (immediate s) of
              None \<Rightarrow> imm_queue (immediate s)
            | Some h \<Rightarrow> filter (\<lambda>p. fst p \<noteq> h) (imm_queue (immediate s)))"
    by (simp add: immediate_clear_def clearImmediate_def split: option.splits)
  have e: "tidy (immediate s) \<longrightarrow> imm_queue (immediate_clear (immediate s)) = []"
    by (simp add: tidy_clear)
  from r a t q e show "step w ev s = Returned (s\<lparr>immediate := immediate_clear (immediate s),
                                 historyGuard := history_restore (historyGuard s)\<rparr>)
     \<and> trace (state_of (step w ev s)) = trace s
     \<and> tasks (state_of (step w ev s)) = tasks s
     \<and> isIgnoring (state_of (step w ev s))
     \<and> timer (immediate (state_of (step w ev s))) = None
     \<and> imm_queue (immediate (state_of (step w ev s)))
         = (case timer (immediate s) of
              None \<Rightarrow> imm_queue (immediate s)
            | Some h \<Rightarrow> filter (\<lambda>p. fst p \<noteq> h) (imm_queue (immediate s)))
     \<and> (tidy (immediate s) \<longrightarrow> imm_queue (immediate (state_of (step w ev s))) = [])"
    by simp
qed

theorem ignored_input_is_discarded_witness:
  "isIgnoring busyIgnoring \<and> attached busyIgnoring \<and> started busyIgnoring
   \<and> dataListeners busyIgnoring = [1]
   \<and> tidy (immediate busyIgnoring)
   \<and> immediate busyIgnoring = \<lparr>timer = Some 0, imm_queue = [(0, ())], imm_fresh = 1\<rparr>
   \<and> historyGuard busyIgnoring = \<lparr>history = Some [''b'', ''a'', ''old''], lockLength = 2\<rparr>
   \<and> immediate (state_of (step quiet (RlLine ''b'') busyIgnoring))
       = \<lparr>timer = None, imm_queue = [], imm_fresh = 1\<rparr>
   \<and> historyGuard (state_of (step quiet (RlLine ''b'') busyIgnoring))
       = \<lparr>history = Some [''a'', ''old''], lockLength = 2\<rparr>
   \<and> trace (state_of (step quiet (RlLine ''b'') busyIgnoring))
       = [RlResume, RlPrompt, RlPause, DataCall 1 ''a'', RlResume, RlResume]
   \<and> trace (state_of (step quiet (RlLine ''b'') busyIgnoring)) = trace busyIgnoring
   \<and> trace (run quiet [RlLine ''b'', RunImmediate] busyIgnoring) = trace busyIgnoring
   \<and> step quiet (Data ''b'') busyIgnoring = step quiet (RlLine ''b'') busyIgnoring
   \<and> imm_queue (immediate (state_of (step quiet (RlLine ''z'') twoPrompts))) = [(0, ())]"
proof -
  have h: "isIgnoring busyIgnoring" "attached busyIgnoring" "started busyIgnoring"
    "dataListeners busyIgnoring = [1]" "tidy (immediate busyIgnoring)"
    "immediate busyIgnoring = \<lparr>timer = Some 0, imm_queue = [(0, ())], imm_fresh = 1\<rparr>"
    "historyGuard busyIgnoring = \<lparr>history = Some [''b'', ''a'', ''old''], lockLength = 2\<rparr>"
    "trace busyIgnoring = [RlResume, RlPrompt, RlPause, DataCall 1 ''a'', RlResume, RlResume]"
    by code_simp+
  have g: "history_restore \<lparr>history = Some [''b'', ''a'', ''old''], lockLength = 2\<rparr>
      = \<lparr>history = Some [''a'', ''old''], lockLength = 2\<rparr>"
    "immediate_clear \<lparr>timer = Some 0, imm_queue = [(0, ())], imm_fresh = 1\<rparr>
      = (\<lparr>timer = None, imm_queue = [], imm_fresh = 1\<rparr> :: unit immediate)"
    by (simp_all add: history_restore_def splice0_def immediate_clear_def clearImmediate_def)
  have p: "isIgnoring twoPrompts" "attached twoPrompts"
    "timer (immediate twoPrompts) = Some 1"
    "imm_queue (immediate twoPrompts) = [(0, ()), (1, ())]"
    by code_simp+
  have i: "trace (run quiet [RlLine ''b'', RunImmediate] busyIgnoring) = trace busyIgnoring"
    by code_simp
  let ?after = "busyIgnoring
      \<lparr>immediate := \<lparr>timer = None, imm_queue = [], imm_fresh = 1\<rparr>,
       historyGuard := \<lparr>history = Some [''a'', ''old''], lockLength = 2\<rparr>\<rparr>"
  have l: "step quiet (RlLine ''b'') busyIgnoring = Returned ?after"
    using ignored_input_is_discarded [of busyIgnoring "RlLine ''b''" "''b''" quiet] h g
    by (simp del: step.simps)
  have d: "step quiet (Data ''b'') busyIgnoring = Returned ?after"
    using ignored_input_is_discarded [of busyIgnoring "Data ''b''" "''b''" quiet] h g
    by (simp del: step.simps)
  have "isIgnoring twoPrompts \<and> (RlLine ''z'' = RlLine ''z'' \<and> attached twoPrompts
      \<or> (RlLine ''z'' = Data ''z'' \<or> RlLine ''z'' = Input ''z'') \<and> started twoPrompts)"
    using p by simp
  from ignored_input_is_discarded [of twoPrompts "RlLine ''z''" "''z''" quiet, THEN mp, OF this]
  have "imm_queue (immediate (state_of (step quiet (RlLine ''z'') twoPrompts)))
      = (case timer (immediate twoPrompts) of
           None \<Rightarrow> imm_queue (immediate twoPrompts)
         | Some h \<Rightarrow> filter (\<lambda>p. fst p \<noteq> h) (imm_queue (immediate twoPrompts)))"
    by (elim conjE)
  then have z: "imm_queue (immediate (state_of (step quiet (RlLine ''z'') twoPrompts)))
      = [(0, ())]"
    by (simp only: p) simp
  show ?thesis
    unfolding l d using h i z by (simp del: step.simps)
qed

text \<open>
  C8. Once \<open>start\<close> has been called, whatever happened since, a call of \<open>start\<close>,
  with or without arguments, returns with the session as it was: no flag, no
  collection, no task and no pending callback changes, and nothing is added to the
  trace (no prompt, no call of the parser or of a listener).
\<close>

theorem start_is_idempotent:
  "step w (Start again) (run w evs (state_of (step w (Start args) s)))
     = Returned (run w evs (state_of (step w (Start args) s)))"
proof -
  have "started (run w evs (state_of (step w (Start args) s)))"
    by (simp only: started_run started_step isStart.simps) simp
  then show ?thesis by (simp add: start_def)
qed

theorem start_is_idempotent_witness:
  "step quiet (Start (Some (True, ''seed'')))
     (run quiet [RlLine ''a''] (state_of (step quiet (Start None) (createCLI None))))
   = Returned (run quiet [RlLine ''a''] (state_of (step quiet (Start None) (createCLI None))))
   \<and> trace (run quiet [RlLine ''a''] (state_of (step quiet (Start None) (createCLI None))))
      = [RlResume, RlPrompt, RlPause]"
  using start_is_idempotent [of quiet "Some (True, ''seed'')" "[RlLine ''a'']" None "createCLI None"]
  by (simp add: createCLI_def ignore_def resume_def emit_def start_def prompt_def
      handleInput_def quiet_def asyncBody_def notifyAll_def setTask_def
      createImmediate_def immediate_clear_def)

section \<open>A new session is suppressed\<close>

lemmas basics = emit_def called_def setTask_def resume_def prompt_def ignore_def Let_def

lemma suppressed_createCLI: "suppressed (createCLI h)"
  by (simp add: suppressed_def createCLI_def basics)

lemma suppressed_step:
  "suppressed s \<Longrightarrow> \<not> unsuppresses ev \<Longrightarrow> suppressed (state_of (step w ev s))"
proof (cases ev)
  case (Ignore v)
  assume "suppressed s" "\<not> unsuppresses ev"
  with Ignore show ?thesis
    by (simp add: suppressed_def basics)
next
  case (RlLine i)
  assume "suppressed s" "\<not> unsuppresses ev"
  with RlLine show ?thesis
    by (auto simp: suppressed_def handleInput_def split: if_splits)
next
  case RunImmediate
  assume "suppressed s" "\<not> unsuppresses ev"
  with RunImmediate show ?thesis
    by (simp add: suppressed_def runImmediate_def basics
        split: prod.splits option.splits)
qed (auto simp: suppressed_def data_def input_def handleInput_def basics
       on_def off_def onClose_def Let_def parserSettled_def listenerSettled_def
       microtask_def)

lemma suppressed_run:
  "suppressed s \<Longrightarrow> \<not> list_ex unsuppresses evs \<Longrightarrow> suppressed (run w evs s)"
  by (induction evs arbitrary: s) (simp_all add: suppressed_step)

lemma suppressed_line:
  "suppressed s \<Longrightarrow>
     trace (state_of (step w (RlLine text) s)) = trace s
     \<and> tasks (state_of (step w (RlLine text) s)) = []"
  by (auto simp: suppressed_def handleInput_def split: if_splits)

lemma locked_createCLI:
  "locked (historyGuard (createCLI h)) = (h \<noteq> None)"
  by (cases h)
     (simp_all add: locked_def createCLI_def basics
        createHistory_def history_lock_def)

lemma locked_restore: "locked g \<Longrightarrow> locked (history_restore g)"
  by (auto simp: locked_def history_restore_def split: option.splits)

lemma locked_step:
  "suppressed s \<Longrightarrow> locked (historyGuard s) \<Longrightarrow> \<not> unsuppresses ev
   \<Longrightarrow> locked (historyGuard (state_of (step w ev s)))"
proof (cases ev)
  case (Ignore v)
  assume "suppressed s" "locked (historyGuard s)" "\<not> unsuppresses ev"
  with Ignore show ?thesis
    by (auto simp: locked_def basics history_lock_def)
next
  case (RlLine i)
  assume "suppressed s" "locked (historyGuard s)" "\<not> unsuppresses ev"
  with RlLine show ?thesis
    by (auto simp: suppressed_def handleInput_def locked_restore split: if_splits)
next
  case RunImmediate
  assume "suppressed s" "locked (historyGuard s)" "\<not> unsuppresses ev"
  with RunImmediate show ?thesis
    by (simp add: runImmediate_def basics split: prod.splits option.splits)
next
  case RlClose
  assume "suppressed s" "locked (historyGuard s)" "\<not> unsuppresses ev"
  with RlClose show ?thesis
    by (auto simp: locked_def onClose_def emit_def Let_def history_clear_def
        split: option.splits)
qed (auto simp: suppressed_def data_def input_def handleInput_def basics
       on_def off_def Let_def parserSettled_def listenerSettled_def
       microtask_def locked_def history_set_def)

lemma locked_run:
  "suppressed s \<Longrightarrow> locked (historyGuard s) \<Longrightarrow> \<not> list_ex unsuppresses evs
   \<Longrightarrow> locked (historyGuard (run w evs s))"
  by (induction evs arbitrary: s) (simp_all add: suppressed_step locked_step)

text \<open>
  C10, as stated, fails for a source whose \<open>history\<close> is not an array: \<open>lock\<close> then
  records \<open>- 1\<close>, the value \<open>unlock\<close> records, and \<open>restore\<close> does nothing. And the
  close of the source, before any \<open>start()\<close> or \<open>ignore(false)\<close>, ends the ignoring.
\<close>

theorem created_unlocked_counterexample:
  "isIgnoring (createCLI None)
   \<and> \<not> locked (historyGuard (createCLI None))
   \<and> lockLength (historyGuard (createCLI None)) = - 1
   \<and> historyGuard (createCLI None) = history_unlock (historyGuard (createCLI None))
   \<and> \<not> isIgnoring (run quiet [RlClose] (createCLI (Some [])))"
  by (simp add: locked_def createCLI_def basics onClose_def
      createHistory_def history_lock_def history_unlock_def)

text \<open>
  C10, amended. A session returned by \<open>createCLI\<close> is ignoring, and its history guard is
  locked exactly when the source has a history array; the watermark is then its length.
  As long as no event is a call of \<open>start\<close> or of \<open>ignore(false)\<close>, the session has not
  started and has no task, it is ignoring unless the source has closed, the guard stays
  locked when the source had a history array, and a line of the source adds nothing to
  the trace (no pause, no call of the parser or of a listener) and creates no task.
\<close>

theorem created_suppressed:
  "isIgnoring (createCLI h)
   \<and> locked (historyGuard (createCLI h)) = (h \<noteq> None)
   \<and> (h = Some xs \<longrightarrow> lockLength (historyGuard (createCLI h)) = int (length xs))
   \<and> (\<not> list_ex unsuppresses evs \<longrightarrow>
        \<not> started (run w evs (createCLI h))
        \<and> (\<not> closed (run w evs (createCLI h)) \<longrightarrow> isIgnoring (run w evs (createCLI h)))
        \<and> (h \<noteq> None \<longrightarrow> locked (historyGuard (run w evs (createCLI h))))
        \<and> trace (state_of (step w (RlLine text) (run w evs (createCLI h))))
            = trace (run w evs (createCLI h))
        \<and> tasks (state_of (step w (RlLine text) (run w evs (createCLI h)))) = [])"
proof (intro conjI impI)
  show "isIgnoring (createCLI h)"
    by (simp add: createCLI_def basics)
  show "locked (historyGuard (createCLI h)) = (h \<noteq> None)"
    by (rule locked_createCLI)
  show "lockLength (historyGuard (createCLI h)) = int (length xs)" if "h = Some xs"
    using that
    by (simp add: createCLI_def basics createHistory_def
        history_lock_def)
next
  assume n: "\<not> list_ex unsuppresses evs"
  have s: "suppressed (run w evs (createCLI h))"
    by (rule suppressed_run [OF suppressed_createCLI n])
  show "\<not> started (run w evs (createCLI h))"
    using s by (simp add: suppressed_def)
  show "isIgnoring (run w evs (createCLI h))" if "\<not> closed (run w evs (createCLI h))"
    using s that by (simp add: suppressed_def)
  show "locked (historyGuard (run w evs (createCLI h)))" if "h \<noteq> None"
    using that by (intro locked_run suppressed_createCLI n) (simp add: locked_createCLI)
  show "trace (state_of (step w (RlLine text) (run w evs (createCLI h))))
            = trace (run w evs (createCLI h))"
    using suppressed_line [OF s] by simp
  show "tasks (state_of (step w (RlLine text) (run w evs (createCLI h)))) = []"
    using suppressed_line [OF s] by simp
qed

theorem created_suppressed_witness:
  "\<not> list_ex unsuppresses [On DataEvent 1, RlHistory [''a'', ''old''], RlLine ''a'']
   \<and> isIgnoring (run quiet [On DataEvent 1, RlHistory [''a'', ''old''], RlLine ''a'']
        (createCLI (Some [''old''])))
   \<and> locked (historyGuard (run quiet [On DataEvent 1, RlHistory [''a'', ''old''], RlLine ''a'']
        (createCLI (Some [''old'']))))
   \<and> historyGuard (run quiet [On DataEvent 1, RlHistory [''a'', ''old''], RlLine ''a'']
        (createCLI (Some [''old''])))
       = \<lparr>history = Some [''old''], lockLength = 1\<rparr>
   \<and> trace (run quiet [On DataEvent 1, RlHistory [''a'', ''old''], RlLine ''a'', RlLine ''b'']
        (createCLI (Some [''old'']))) = [RlResume]"
proof -
  let ?evs = "[On DataEvent 1, RlHistory [''a'', ''old''], RlLine ''a'']"
  let ?s = "run quiet ?evs (createCLI (Some [''old'']))"
  have n: "\<not> list_ex unsuppresses ?evs" by simp
  have c: "\<not> closed ?s \<and> trace ?s = [RlResume]
      \<and> historyGuard ?s = \<lparr>history = Some [''old''], lockLength = 1\<rparr>"
    by (simp add: createCLI_def basics on_def handleInput_def
        createHistory_def history_lock_def history_set_def history_restore_def splice0_def)
  from created_suppressed [of "Some [''old'']" "[''old'']" ?evs quiet "''b''"] n c
  show ?thesis by simp
qed

section \<open>Calls of listeners change the trace and the call count only\<close>

lemma callErrorListeners_rest:
  "isIgnoring (fst (callErrorListeners w ls e s)) = isIgnoring s
   \<and> immediate (fst (callErrorListeners w ls e s)) = immediate s
   \<and> historyGuard (fst (callErrorListeners w ls e s)) = historyGuard s
   \<and> tasks (fst (callErrorListeners w ls e s)) = tasks s"
  by (induction ls arbitrary: s) (simp_all add: called_def split: option.splits)

lemma notifyError_rest [simp]:
  "isIgnoring (fst (notifyError w e s)) = isIgnoring s"
  "immediate (fst (notifyError w e s)) = immediate s"
  "historyGuard (fst (notifyError w e s)) = historyGuard s"
  "tasks (fst (notifyError w e s)) = tasks s"
  by (simp_all add: notifyError_def callErrorListeners_rest)

lemma callDataListeners_rest [simp]:
  "isIgnoring (fst (callDataListeners w ls v i s)) = isIgnoring s
   \<and> immediate (fst (callDataListeners w ls v i s)) = immediate s
   \<and> historyGuard (fst (callDataListeners w ls v i s)) = historyGuard s
   \<and> tasks (fst (callDataListeners w ls v i s)) = tasks s"
  by (induction ls arbitrary: s i)
     (simp_all add: called_def split_beta split: returned.splits)

lemma wrapDataListeners_rest [simp]:
  "isIgnoring (fst (wrapDataListeners w ls v i s)) = isIgnoring s
   \<and> immediate (fst (wrapDataListeners w ls v i s)) = immediate s
   \<and> historyGuard (fst (wrapDataListeners w ls v i s)) = historyGuard s
   \<and> tasks (fst (wrapDataListeners w ls v i s)) = tasks s"
  by (induction ls arbitrary: s i)
     (simp_all add: called_def split_beta split: returned.splits)

lemma frame_trace: "frame s s' \<Longrightarrow> \<exists>ext. trace s' = trace s @ ext"
  by (auto simp: frame_def)

section \<open>The cleanup\<close>

lemma cleanedUp_cleanup: "cleanedUp s (cleanup s)"
proof -
  have "trace (cleanup s) = trace s @ [] @ (if closed s then [] else [RlResume]) @ []
      \<and> list_all isUnhandled []"
    by (simp add: cleanup_def basics)
  then have "\<exists>before rest.
      trace (cleanup s) = trace s @ before @ (if closed s then [] else [RlResume]) @ rest
      \<and> list_all isUnhandled rest"
    by blast
  then show ?thesis
    by (simp add: cleanedUp_def cleanup_def basics history_unlock_def immediate_set_def)
qed

lemma tasks_cleanup [simp]: "tasks (cleanup s) = tasks s"
  by (simp add: cleanup_def basics)

lemma cleanedUp_after:
  "frame s s1 \<Longrightarrow> cleanedUp s1 s' \<Longrightarrow> cleanedUp s s'"
proof -
  assume f: "frame s s1" and c: "cleanedUp s1 s'"
  from f obtain ext where e: "trace s1 = trace s @ ext" by (auto dest: frame_trace)
  from f have cl: "closed s1 = closed s" by (simp add: frame_def)
  from c obtain before rest where
    "trace s' = trace s1 @ before @ (if closed s1 then [] else [RlResume]) @ rest"
    "list_all isUnhandled rest"
    by (auto simp: cleanedUp_def)
  with e cl have "trace s' = trace s @ (ext @ before) @ (if closed s then [] else [RlResume]) @ rest
      \<and> list_all isUnhandled rest"
    by simp
  then have "\<exists>before rest. trace s' = trace s @ before @ (if closed s then [] else [RlResume]) @ rest
      \<and> list_all isUnhandled rest"
    by blast
  with c cl show ?thesis by (simp add: cleanedUp_def)
qed

lemma cleanedUp_unhandled: "cleanedUp s s' \<Longrightarrow> cleanedUp s (emit (Unhandled e) s')"
proof -
  assume c: "cleanedUp s s'"
  then obtain before rest where
    "trace s' = trace s @ before @ (if closed s then [] else [RlResume]) @ rest"
    "list_all isUnhandled rest"
    by (auto simp: cleanedUp_def)
  then have "trace (emit (Unhandled e) s')
      = trace s @ before @ (if closed s then [] else [RlResume]) @ (rest @ [Unhandled e])
      \<and> list_all isUnhandled (rest @ [Unhandled e])"
    by (simp add: emit_def)
  then have "\<exists>before rest. trace (emit (Unhandled e) s')
      = trace s @ before @ (if closed s then [] else [RlResume]) @ rest
      \<and> list_all isUnhandled rest"
    by blast
  with c show ?thesis by (simp add: cleanedUp_def emit_def)
qed

lemma cleanedUp_setTask: "cleanedUp s s' \<Longrightarrow> cleanedUp s (setTask tid t s')"
  by (simp add: cleanedUp_def setTask_def)

lemma cleanedUp_catchFinally: "cleanedUp s (catchFinally w r s)"
proof (cases r)
  case None
  then show ?thesis by (simp add: catchFinally_def cleanedUp_cleanup)
next
  case (Some e)
  have "cleanedUp s (cleanup (fst (notifyError w e s)))"
    by (rule cleanedUp_after [OF frame_notifyError cleanedUp_cleanup])
  with Some show ?thesis
    by (simp add: catchFinally_def split_beta cleanedUp_unhandled split: option.splits)
qed

lemma tasks_catchFinally [simp]: "tasks (catchFinally w r s) = tasks s"
  by (simp add: catchFinally_def split_beta split: option.splits) (simp add: emit_def)

section \<open>A task is completed by the cleanup only\<close>

text \<open>
  Each function that runs a part of the async body changes the task it runs for and no
  other, and leaves it completed only when the cleanup has run.
\<close>

lemma advances_notifyAll:
  "\<exists>t. tasks (notifyAll w tid v s) = (tasks s)[tid := t]
      \<and> (stage t = Completed \<longrightarrow> cleanedUp s (notifyAll w tid v s))"
proof -
  let ?r = "callDataListeners w (dataListeners s) v 0 s"
  have f: "frame s (fst ?r)" by (simp add: frame_callDataListeners)
  show ?thesis
  proof (cases "snd (snd ?r)")
    case None
    then show ?thesis
      by (auto simp: notifyAll_def split_beta setTask_def awaitingListeners_def)
  next
    case (Some e)
    have "cleanedUp s (setTask tid (completed (fst (snd ?r)) True) (catchFinally w (Some e) (fst ?r)))"
      by (intro cleanedUp_setTask cleanedUp_after [OF f] cleanedUp_catchFinally)
    moreover have "tasks (setTask tid (completed (fst (snd ?r)) True) (catchFinally w (Some e) (fst ?r)))
      = (tasks s)[tid := completed (fst (snd ?r)) True]"
      by (simp add: setTask_def)
    ultimately show ?thesis using Some
      by (auto simp: notifyAll_def split_beta)
  qed
qed

lemma advances_asyncBody:
  "\<exists>t. tasks (asyncBody w tid isParsed i s) = (tasks s)[tid := t]
      \<and> (stage t = Completed \<longrightarrow> cleanedUp s (asyncBody w tid isParsed i s))"
proof (cases "if \<not> isParsed then parser w else None")
  case None
  then show ?thesis using advances_notifyAll [of w tid i s] by (simp add: asyncBody_def)
next
  case (Some p)
  let ?s1 = "called (ParserCall i) s"
  have f: "frame s ?s1" by (simp add: frame_called)
  show ?thesis
  proof (cases "p i (calls s)")
    case (Returns v)
    with Some show ?thesis
      by (auto simp: asyncBody_def setTask_def called_def awaitingParser_def)
  next
    case Promise
    with Some show ?thesis
      by (auto simp: asyncBody_def setTask_def called_def awaitingParser_def)
  next
    case (Throws e)
    have "cleanedUp s (setTask tid (completed [] False) (catchFinally w (Some e) ?s1))"
      by (intro cleanedUp_setTask cleanedUp_after [OF f] cleanedUp_catchFinally)
    moreover have "tasks (setTask tid (completed [] False) (catchFinally w (Some e) ?s1))
      = (tasks s)[tid := completed [] False]"
      by (simp add: setTask_def called_def)
    ultimately show ?thesis using Some Throws
      by (auto simp: asyncBody_def)
  qed
qed

lemma advances_notifyAll_wrapped:
  "\<exists>t. tasks (notifyAll_wrapped w tid v s) = (tasks s)[tid := t] \<and> stage t \<noteq> Completed"
  using wrapDataListeners_rest [of w "dataListeners s" v 0 s]
  by (auto simp: notifyAll_wrapped_def split_beta setTask_def awaitingListeners_def)

lemma advances_handleData:
  "\<exists>t. tasks (handleData w tid parse i s) = (tasks s)[tid := t] \<and> stage t \<noteq> Completed"
proof (cases "if parse then parser w else None")
  case None
  then show ?thesis using advances_notifyAll_wrapped [of w tid i s]
    by (simp add: handleData_def)
next
  case (Some p)
  then show ?thesis
    by (cases "p i (calls s)")
       (auto simp: handleData_def setTask_def called_def awaitingParser_def
          awaitingListeners_def split_beta)
qed

lemma cleanedUp_pre:
  "closed s1 = closed s \<Longrightarrow> trace s1 = trace s @ ext \<Longrightarrow> cleanedUp s1 s'
   \<Longrightarrow> cleanedUp s s'"
proof -
  assume cl: "closed s1 = closed s" and e: "trace s1 = trace s @ ext"
    and c: "cleanedUp s1 s'"
  from c obtain before rest where
    "trace s' = trace s1 @ before @ (if closed s1 then [] else [RlResume]) @ rest"
    "list_all isUnhandled rest"
    by (auto simp: cleanedUp_def)
  with e cl have "trace s' = trace s @ (ext @ before) @ (if closed s then [] else [RlResume]) @ rest
      \<and> list_all isUnhandled rest"
    by simp
  then have "\<exists>before rest. trace s' = trace s @ before @ (if closed s then [] else [RlResume]) @ rest
      \<and> list_all isUnhandled rest"
    by blast
  with c cl show ?thesis by (simp add: cleanedUp_def)
qed

lemma advances_continue:
  "tid < length (tasks s) \<Longrightarrow> stage (tasks s ! tid) \<noteq> Completed \<Longrightarrow>
   \<exists>t. tasks (continue w tid (tasks s ! tid) s) = (tasks s)[tid := t]
      \<and> (stage t = Completed \<longrightarrow> cleanedUp s (continue w tid (tasks s ! tid) s))"
proof -
  assume l: "tid < length (tasks s)" and n: "stage (tasks s ! tid) \<noteq> Completed"
  let ?t = "tasks s ! tid"
  have same: "\<exists>t. tasks s = (tasks s)[tid := t] \<and> (stage t = Completed \<longrightarrow> cleanedUp s s)"
    using n by (intro exI [of _ ?t]) simp
  have fin: "\<exists>t. tasks (setTask tid (completed ps b) (catchFinally w r s)) = (tasks s)[tid := t]
      \<and> (stage t = Completed \<longrightarrow> cleanedUp s (setTask tid (completed ps b) (catchFinally w r s)))"
    for ps b r
  proof (intro exI [of _ "completed ps b"] conjI impI)
    show "tasks (setTask tid (completed ps b) (catchFinally w r s)) = (tasks s)[tid := completed ps b]"
      by (simp add: setTask_def)
    show "cleanedUp s (setTask tid (completed ps b) (catchFinally w r s))"
      by (intro cleanedUp_setTask cleanedUp_catchFinally)
  qed
  show ?thesis
  proof (cases "stage ?t")
    case AwaitingParser
    show ?thesis
    proof (cases "parsed ?t")
      case None
      with AwaitingParser same show ?thesis by (simp add: continue_def)
    next
      case (Some r)
      show ?thesis
      proof (cases r)
        case (Inl e)
        with AwaitingParser Some fin [of "[]" False "Some e"] show ?thesis
          by (simp add: continue_def)
      next
        case (Inr v)
        with AwaitingParser Some advances_notifyAll [of w tid v s] show ?thesis
          by (simp add: continue_def)
      qed
    qed
  next
    case AwaitingListeners
    show ?thesis
    proof (cases "rejected ?t")
      case (Some e)
      with AwaitingListeners fin [of "pending ?t" False "Some e"] show ?thesis
        by (simp add: continue_def)
    next
      case None
      with AwaitingListeners same fin [of "[]" False None] show ?thesis
        by (simp add: continue_def)
    qed
  next
    case Completed
    with n show ?thesis by simp
  qed
qed

lemma advances_continue_handleData:
  "tid < length (tasks s) \<Longrightarrow> stage (tasks s ! tid) \<noteq> Completed \<Longrightarrow>
   \<exists>t. tasks (continue_handleData w tid (tasks s ! tid) s) = (tasks s)[tid := t]
      \<and> (stage t = Completed \<longrightarrow> cleanedUp s (continue_handleData w tid (tasks s ! tid) s))"
proof -
  assume l: "tid < length (tasks s)" and n: "stage (tasks s ! tid) \<noteq> Completed"
  let ?t = "tasks s ! tid"
  have same: "\<exists>t. tasks s = (tasks s)[tid := t] \<and> (stage t = Completed \<longrightarrow> cleanedUp s s)"
    using n by (intro exI [of _ ?t]) simp
  have fin: "\<exists>t. tasks (setTask tid (completed ps b) s') = (tasks s)[tid := t]
      \<and> (stage t = Completed \<longrightarrow> cleanedUp s (setTask tid (completed ps b) s'))"
    if "cleanedUp s s'" "tasks s' = tasks s" for ps b s'
  proof (intro exI [of _ "completed ps b"] conjI impI)
    show "tasks (setTask tid (completed ps b) s') = (tasks s)[tid := completed ps b]"
      using that by (simp add: setTask_def)
    show "cleanedUp s (setTask tid (completed ps b) s')"
      using that by (intro cleanedUp_setTask)
  qed
  have wait: "\<exists>t. tasks (setTask tid (awaitingListeners ps r) (fst (notifyError w e s)))
        = (tasks s)[tid := t]
      \<and> (stage t = Completed \<longrightarrow>
           cleanedUp s (setTask tid (awaitingListeners ps r) (fst (notifyError w e s))))"
    for ps r e
    by (intro exI [of _ "awaitingListeners ps r"]) (simp add: setTask_def awaitingListeners_def)
  show ?thesis
  proof (cases "stage ?t")
    case AwaitingParser
    show ?thesis
    proof (cases "parsed ?t")
      case None
      with AwaitingParser same show ?thesis by (simp add: continue_handleData_def)
    next
      case (Some r)
      show ?thesis
      proof (cases r)
        case (Inl e)
        with AwaitingParser Some wait show ?thesis
          by (simp add: continue_handleData_def split_beta)
      next
        case (Inr v)
        from advances_notifyAll_wrapped [of w tid v s]
        have "\<exists>t. tasks (notifyAll_wrapped w tid v s) = (tasks s)[tid := t]
          \<and> (stage t = Completed \<longrightarrow> cleanedUp s (notifyAll_wrapped w tid v s))"
          by blast
        with AwaitingParser Some Inr show ?thesis
          by (simp add: continue_handleData_def)
      qed
    qed
  next
    case AwaitingListeners
    show ?thesis
    proof (cases "rejected ?t")
      case (Some e)
      have "cleanedUp s (emit (Unhandled e) (cleanup s))"
        by (intro cleanedUp_unhandled cleanedUp_cleanup)
      moreover have "tasks (emit (Unhandled e) (cleanup s)) = tasks s"
        by (simp add: emit_def)
      ultimately show ?thesis using AwaitingListeners Some fin
        by (simp add: continue_handleData_def)
    next
      case None
      with AwaitingListeners same fin [OF cleanedUp_cleanup tasks_cleanup] show ?thesis
        by (simp add: continue_handleData_def)
    qed
  next
    case Completed
    with n show ?thesis by simp
  qed
qed

lemma completes_update:
  "tasks s' = (tasks s)[tid := t] \<Longrightarrow> completes k s s' \<Longrightarrow> k = tid \<and> stage t = Completed"
  by (cases "k = tid") (auto simp: completes_def split: if_splits)

lemma completes_same: "tasks s' = tasks s \<Longrightarrow> \<not> completes k s s'"
  by (auto simp: completes_def)

lemma microtask_completes:
  "completes k s (microtask w tid s) \<Longrightarrow> cleanedUp s (microtask w tid s)"
proof (cases "tid < length (tasks s) \<and> stage (tasks s ! tid) \<noteq> Completed")
  case False
  assume c: "completes k s (microtask w tid s)"
  from False have "microtask w tid s = s"
    by (auto simp: microtask_def continue_def continue_handleData_def split: revision.splits)
  with c show ?thesis by (simp add: completes_same)
next
  case True
  assume c: "completes k s (microtask w tid s)"
  show ?thesis
  proof (cases "revision w")
    case Cli_ts
    with True have m: "microtask w tid s = continue w tid (tasks s ! tid) s"
      by (simp add: microtask_def)
    from True advances_continue [of tid s w] obtain t where
      "tasks (continue w tid (tasks s ! tid) s) = (tasks s)[tid := t]"
      "stage t = Completed \<longrightarrow> cleanedUp s (continue w tid (tasks s ! tid) s)"
      by blast
    with c m completes_update [of "microtask w tid s" s tid t k] show ?thesis by simp
  next
    case Part_001
    with True have m: "microtask w tid s = continue_handleData w tid (tasks s ! tid) s"
      by (simp add: microtask_def)
    from True advances_continue_handleData [of tid s w] obtain t where
      "tasks (continue_handleData w tid (tasks s ! tid) s) = (tasks s)[tid := t]"
      "stage t = Completed \<longrightarrow> cleanedUp s (continue_handleData w tid (tasks s ! tid) s)"
      by blast
    with c m completes_update [of "microtask w tid s" s tid t k] show ?thesis by simp
  qed
qed

lemma handleInput_completes:
  "completes k s (state_of (handleInput w isParsed i tse s))
   \<Longrightarrow> cleanedUp s (state_of (handleInput w isParsed i tse s))"
proof (cases "(tse \<and> \<not> started s) \<or> isIgnoring s")
  case True
  assume c: "completes k s (state_of (handleInput w isParsed i tse s))"
  from True have "tasks (state_of (handleInput w isParsed i tse s)) = tasks s"
    by (auto simp: handleInput_def)
  with c show ?thesis by (simp add: completes_same)
next
  case False
  assume c: "completes k s (state_of (handleInput w isParsed i tse s))"
  let ?s1 = "s\<lparr>immediate := immediate_clear (immediate s)\<rparr>"
  let ?s3 = "(emit RlPause ?s1)\<lparr>tasks := tasks (emit RlPause ?s1) @ [awaitingParser None]\<rparr>"
  let ?tid = "length (tasks s)"
  let ?s' = "case revision w of Cli_ts \<Rightarrow> asyncBody w ?tid isParsed i ?s3
               | Part_001 \<Rightarrow> handleData w ?tid (\<not> isParsed) i ?s3"
  from False have "\<not> (tse \<and> \<not> started s)" and "\<not> isIgnoring s" by auto
  then have h: "state_of (handleInput w isParsed i tse s) = ?s'"
    by (cases "revision w"; cases tse) (simp_all add: handleInput_def Let_def emit_def)
  have t3: "tasks ?s3 = tasks s @ [awaitingParser None]" by (simp add: emit_def)
  have pre: "closed ?s3 = closed s" "trace ?s3 = trace s @ [RlPause]"
    by (simp_all add: emit_def)
  have "\<exists>t. tasks ?s' = (tasks ?s3)[?tid := t] \<and> (stage t = Completed \<longrightarrow> cleanedUp ?s3 ?s')"
    using advances_asyncBody [of w ?tid isParsed i ?s3]
      advances_handleData [of w ?tid "\<not> isParsed" i ?s3]
    by (cases "revision w") auto
  then obtain t where t: "tasks ?s' = tasks s @ [t]"
      "stage t = Completed \<longrightarrow> cleanedUp ?s3 ?s'"
    using t3 by auto
  from c h have c': "completes k s ?s'" by simp
  with t have "k = ?tid \<and> stage t = Completed"
    by (cases "k < length (tasks s)") (auto simp: completes_def nth_append split: if_splits)
  with t have "cleanedUp ?s3 ?s'" by simp
  then have "cleanedUp s ?s'" by (rule cleanedUp_pre [OF pre])
  with h show ?thesis by simp
qed

lemma listenerSettled_stage:
  "\<not> completes k s (listenerSettled w tid i r s)"
proof (cases "tid < length (tasks s) \<and> i \<in> set (pending (tasks s ! tid))")
  case False
  then have "listenerSettled w tid i r s = s" by (auto simp: listenerSettled_def)
  then show ?thesis by (simp add: completes_same)
next
  case True
  let ?t = "tasks s ! tid"
  have "\<exists>t. tasks (listenerSettled w tid i r s) = (tasks s)[tid := t] \<and> stage t = stage ?t"
    using True
    by (cases "revision w"; cases r)
       (auto simp: listenerSettled_def settled_def settled_wrapped_def Let_def setTask_def
          emit_def split_beta)
  then obtain t where t: "tasks (listenerSettled w tid i r s) = (tasks s)[tid := t]"
      "stage t = stage ?t" by blast
  show ?thesis
  proof
    assume c: "completes k s (listenerSettled w tid i r s)"
    with t completes_update [of "listenerSettled w tid i r s" s tid t k]
    have "k = tid \<and> stage ?t = Completed" by simp
    with c True show False by (simp add: completes_def)
  qed
qed

lemma parserSettled_stage: "\<not> completes k s (parserSettled tid r s)"
  by (auto simp: completes_def parserSettled_def setTask_def nth_list_update split: if_splits)

lemma step_completes:
  "completes k s (state_of (step w ev s)) \<Longrightarrow> cleanedUp s (state_of (step w ev s))"
proof (cases ev)
  case (Start args)
  assume c: "completes k s (state_of (step w ev s))"
  show ?thesis
  proof (cases "started s")
    case True
    with c Start show ?thesis by (simp add: start_def completes_same)
  next
    case False
    let ?s0 = "ignore False (s\<lparr>started := True\<rparr>)"
    have pre: "closed ?s0 = closed s" "trace ?s0 = trace s @ []" "tasks ?s0 = tasks s"
      by (simp_all add: basics)
    show ?thesis
    proof (cases args)
      case None
      with c Start False pre show ?thesis
        by (simp add: start_def Let_def completes_same prompt_def emit_def)
    next
      case (Some a)
      obtain p i where a: "a = (p, i)" by (cases a)
      let ?s' = "state_of (handleInput w p i False ?s0)"
      from Start False Some a have e: "state_of (step w ev s) = ?s'"
        by (simp add: start_def Let_def)
      with c pre have "completes k ?s0 ?s'" by (simp add: completes_def)
      then have "cleanedUp ?s0 ?s'" by (rule handleInput_completes)
      then have "cleanedUp s ?s'" by (rule cleanedUp_pre [OF pre(1) pre(2)])
      with e show ?thesis by simp
    qed
  qed
next
  case (Data d)
  assume "completes k s (state_of (step w ev s))"
  with Data show ?thesis by (simp add: data_def handleInput_completes)
next
  case (Input i)
  assume "completes k s (state_of (step w ev s))"
  with Input show ?thesis by (simp add: input_def handleInput_completes)
next
  case (RlLine i)
  assume "completes k s (state_of (step w ev s))"
  with RlLine show ?thesis
    by (cases "attached s") (simp_all add: handleInput_completes completes_same)
next
  case (ParserSettled tid r)
  assume "completes k s (state_of (step w ev s))"
  with ParserSettled show ?thesis by (simp add: parserSettled_stage)
next
  case (ListenerSettled tid i r)
  assume "completes k s (state_of (step w ev s))"
  with ListenerSettled show ?thesis by (simp add: listenerSettled_stage)
next
  case (Microtask tid)
  assume "completes k s (state_of (step w ev s))"
  with Microtask show ?thesis by (simp add: microtask_completes)
next
  case RunImmediate
  assume c: "completes k s (state_of (step w ev s))"
  have "tasks (runImmediate s) = tasks s"
    by (simp add: runImmediate_def basics split: prod.splits option.splits)
  with c RunImmediate show ?thesis by (simp add: completes_same)
next
  case Prompt
  assume c: "completes k s (state_of (step w ev s))"
  have "tasks (prompt s) = tasks s" by (simp add: basics)
  with c Prompt show ?thesis by (simp add: completes_same)
next
  case (Ignore v)
  assume c: "completes k s (state_of (step w ev s))"
  have "tasks (ignore v s) = tasks s" by (simp add: basics)
  with c Ignore show ?thesis by (simp add: completes_same)
next
  case (On e l)
  assume c: "completes k s (state_of (step w ev s))"
  have "tasks (on e l s) = tasks s" by (simp add: on_def Let_def)
  with c On show ?thesis by (simp add: completes_same)
next
  case (Off e l)
  assume c: "completes k s (state_of (step w ev s))"
  have "tasks (off e l s) = tasks s" by (simp add: off_def Let_def)
  with c Off show ?thesis by (simp add: completes_same)
next
  case (RlHistory h)
  assume c: "completes k s (state_of (step w ev s))"
  with RlHistory show ?thesis by (simp add: completes_same)
next
  case RlClose
  assume c: "completes k s (state_of (step w ev s))"
  have "tasks (onClose s) = tasks s" by (simp add: onClose_def basics)
  with c RlClose show ?thesis by (simp add: completes_same)
qed

lemma ready_microtask:
  "tid < length (tasks s) \<Longrightarrow> ready (tasks s ! tid) \<Longrightarrow>
     (stage (tasks s ! tid) = AwaitingListeners \<longrightarrow>
        stage (tasks (microtask w tid s) ! tid) = Completed)
     \<and> stage (tasks (microtask w tid s) ! tid) \<noteq> AwaitingParser"
proof -
  assume l: "tid < length (tasks s)" and r: "ready (tasks s ! tid)"
  let ?t = "tasks s ! tid"
  have na: "stage (tasks (notifyAll w tid v s) ! tid) \<noteq> AwaitingParser" for v
    using l callDataListeners_rest [of w "dataListeners s" v 0 s]
    by (auto simp: notifyAll_def split_beta setTask_def completed_def awaitingListeners_def
        split: option.splits)
  have nw: "stage (tasks (notifyAll_wrapped w tid v s) ! tid) \<noteq> AwaitingParser" for v
    using l wrapDataListeners_rest [of w "dataListeners s" v 0 s]
    by (auto simp: notifyAll_wrapped_def split_beta setTask_def awaitingListeners_def)
  show ?thesis
  proof (cases "revision w")
    case Cli_ts
    with l r na show ?thesis
      by (auto simp: microtask_def continue_def ready_def setTask_def completed_def
          split: stage.splits option.splits sum.splits)
  next
    case Part_001
    with l r nw show ?thesis
      by (auto simp: microtask_def continue_handleData_def ready_def setTask_def
          completed_def awaitingListeners_def emit_def split_beta
          split: stage.splits option.splits sum.splits)
  qed
qed

lemma listenerSettled_pending:
  "tid < length (tasks s) \<Longrightarrow> i \<in> set (pending (tasks s ! tid)) \<Longrightarrow>
     pending (tasks (listenerSettled w tid i r s) ! tid) = removeAll i (pending (tasks s ! tid))"
  by (cases "revision w"; cases r)
     (auto simp: listenerSettled_def settled_def settled_wrapped_def Let_def setTask_def
        emit_def split_beta)

section \<open>Processing ends with the cleanup\<close>

lemma accepted_creates_task:
  "\<not> isIgnoring s \<Longrightarrow> (tse \<longrightarrow> started s) \<Longrightarrow>
     length (tasks (state_of (handleInput w isParsed i tse s))) = Suc (length (tasks s))"
proof -
  assume a: "\<not> isIgnoring s" "tse \<longrightarrow> started s"
  let ?s1 = "s\<lparr>immediate := immediate_clear (immediate s)\<rparr>"
  let ?s3 = "(emit RlPause ?s1)\<lparr>tasks := tasks (emit RlPause ?s1) @ [awaitingParser None]\<rparr>"
  let ?tid = "length (tasks s)"
  let ?s' = "case revision w of Cli_ts \<Rightarrow> asyncBody w ?tid isParsed i ?s3
               | Part_001 \<Rightarrow> handleData w ?tid (\<not> isParsed) i ?s3"
  from a have h: "state_of (handleInput w isParsed i tse s) = ?s'"
    by (cases "revision w"; cases tse) (simp_all add: handleInput_def Let_def emit_def)
  have "\<exists>t. tasks ?s' = (tasks ?s3)[?tid := t]"
    using advances_asyncBody [of w ?tid isParsed i ?s3]
      advances_handleData [of w ?tid "\<not> isParsed" i ?s3]
    by (cases "revision w") auto
  then have "length (tasks ?s') = Suc (length (tasks s))"
    by (auto simp: emit_def)
  with h show ?thesis by simp
qed




section \<open>Data listeners and their errors\<close>

text \<open>
  C2 fails in the revision of \<open>src/cli.ts\<close>. With the data listeners 1 and 2 and the
  error listener 7 registered, listener 1 throwing ends
  \<open>dataListeners.map(listener => listener(value))\<close>: listener 2 is never called. And
  when the promises of two listeners reject, \<open>Promise.all\<close> passes the first rejection
  to the \<open>catch\<close> block only: the second never reaches the error listeners. The revision
  with \<open>handleData\<close> calls listener 2, and passes both rejections on.
\<close>

theorem throwing_listener_stops_the_others:
  "trace (run (throwing Cli_ts)
      [On DataEvent 1, On DataEvent 2, On ErrorEvent 7, Start None, Data ''x'']
      (createCLI None))
     = [RlResume, RlPrompt, RlPause, DataCall 1 ''x'', ErrorCall (Custom 7) ''boom'', RlResume]
   \<and> trace (run (throwing Part_001)
      [On DataEvent 1, On DataEvent 2, On ErrorEvent 7, Start None, Data ''x'', Microtask 0]
      (createCLI None))
     = [RlResume, RlPrompt, RlPause, DataCall 1 ''x'', ErrorCall (Custom 7) ''boom'',
        DataCall 2 ''x'', RlResume]
   \<and> trace (run (pending_world Cli_ts)
      [ListenerSettled 0 0 (Some ''a''), ListenerSettled 0 1 (Some ''b''), Microtask 0]
      (twoPending Cli_ts))
     = [RlResume, RlPrompt, RlPause, DataCall 1 ''x'', DataCall 2 ''x'',
        ErrorCall (Custom 7) ''a'', RlResume]
   \<and> trace (run (pending_world Part_001)
      [ListenerSettled 0 0 (Some ''a''), ListenerSettled 0 1 (Some ''b''), Microtask 0]
      (twoPending Part_001))
     = [RlResume, RlPrompt, RlPause, DataCall 1 ''x'', DataCall 2 ''x'',
        ErrorCall (Custom 7) ''a'', ErrorCall (Custom 7) ''b'', RlResume]"
  by code_simp

text \<open>
  In the revision with \<open>handleData\<close> the claim holds. Every data listener is called,
  in order, whatever the listeners before it did.
\<close>

lemma dataCalls_append [simp]: "dataCalls (xs @ ys) = dataCalls xs @ dataCalls ys"
  by (induction xs rule: dataCalls.induct) simp_all

lemma dataCalls_callErrorListeners [simp]:
  "dataCalls (trace (fst (callErrorListeners w ls e s))) = dataCalls (trace s)"
  by (induction ls arbitrary: s) (simp_all add: called_def split: option.splits)

lemma dataCalls_notifyError [simp]:
  "dataCalls (trace (fst (notifyError w e s))) = dataCalls (trace s)"
  by (simp add: notifyError_def)

lemma wrapped_calls_every_listener:
  "dataCalls (trace (fst (wrapDataListeners w ls v i s)))
     = dataCalls (trace s) @ map (\<lambda>l. (l, v)) ls"
  by (induction ls arbitrary: s i)
     (simp_all add: split_beta called_def split: returned.splits)

lemma handleData_calls_every_listener:
  "revision w = Part_001 \<Longrightarrow> started s \<Longrightarrow> \<not> isIgnoring s \<Longrightarrow>
     dataCalls (trace (state_of (step w (Data v) s)))
       = dataCalls (trace s) @ map (\<lambda>l. (l, v)) (dataListeners s)"
  by (simp add: data_def handleInput_def Let_def handleData_def notifyAll_wrapped_def
      split_beta setTask_def emit_def wrapped_calls_every_listener)

text \<open>
  What a listener throws goes to the error listeners before the next listener is
  called, and what its promise rejects with goes to them when it settles; the first
  error listener is called with it.
\<close>

lemma wrapped_throw_is_routed:
  "dataListener w l v (calls s) = Throws e \<Longrightarrow>
     fst (wrapDataListeners w (l # ls) v i s)
       = fst (wrapDataListeners w ls v (Suc i) (fst (notifyError w e (called (DataCall l v) s))))"
  by (simp add: split_beta)

lemma wrapped_rejection_is_routed:
  "revision w = Part_001 \<Longrightarrow> tid < length (tasks s) \<Longrightarrow> i \<in> set (pending (tasks s ! tid))
   \<Longrightarrow> trace (state_of (step w (ListenerSettled tid i (Some e)) s))
       = trace (fst (notifyError w e s))"
  by (simp add: listenerSettled_def settled_wrapped_def Let_def split_beta setTask_def)

lemma notifyError_calls_first:
  "errorListeners s = l # ls \<Longrightarrow>
     \<exists>rest. trace (fst (notifyError w e s)) = trace s @ ErrorCall l e # rest"
proof -
  assume a: "errorListeners s = l # ls"
  let ?s1 = "called (ErrorCall l e) s"
  have t1: "trace ?s1 = trace s @ [ErrorCall l e]" by (simp add: called_def)
  have "frame ?s1 (fst (callErrorListeners w ls e ?s1))"
    using a by (intro frame_callErrorListeners) (auto simp: called_def)
  then obtain ext where "trace (fst (callErrorListeners w ls e ?s1)) = trace ?s1 @ ext"
    by (auto dest: frame_trace)
  with t1 a show ?thesis
    by (auto simp: notifyError_def split: option.splits)
qed

text \<open>Nothing but the usage error is ever thrown to the caller of an operation.\<close>

lemma only_the_usage_error_is_thrown:
  "step w ev s = Thrown e s' \<Longrightarrow> e = startError \<and> s' = s \<and> \<not> started s"
  by (cases ev)
     (auto simp: data_def input_def handleInput_def start_def Let_def
        split: if_splits option.splits prod.splits)

section \<open>After the source has closed\<close>

text \<open>
  C9 fails on \<open>rl.pause()\<close>: \<open>resume\<close> and \<open>prompt\<close> are behind \<open>if (!closed)\<close>,
  the call of \<open>rl.pause()\<close> in \<open>handleInput\<close> is not. After \<open>start()\<close> and the close
  of the source, \<open>data(v)\<close> pauses the closed source, in both revisions.
\<close>

theorem closed_source_is_paused:
  "closed (run quiet [Start None, RlClose] (createCLI (Some [])))
   \<and> trace (run quiet [Start None, RlClose] (createCLI (Some [])))
       = [RlResume, RlPrompt, RlRemoveAllListeners]
   \<and> trace (run quiet [Start None, RlClose, Data ''x''] (createCLI (Some [])))
       = [RlResume, RlPrompt, RlRemoveAllListeners, RlPause]
   \<and> trace (run (quiet\<lparr>revision := Part_001\<rparr>) [Start None, RlClose, Data ''x'']
        (createCLI (Some [])))
       = [RlResume, RlPrompt, RlRemoveAllListeners, RlPause]"
  by code_simp

text \<open>
  The rest of C9 holds. The close handler empties the data listeners, leaves the
  default handler alone among the error listeners, empties the bound history, detaches
  the session from the source and marks it closed.
\<close>

lemma close_resets:
  "attached s \<Longrightarrow>
     closedDown (state_of (step w RlClose s))
     \<and> \<not> didSetError (state_of (step w RlClose s))
     \<and> \<not> isIgnoring (state_of (step w RlClose s))
     \<and> history (historyGuard (state_of (step w RlClose s)))
         = (case history (historyGuard s) of None \<Rightarrow> None | Some xs \<Rightarrow> Some [])
     \<and> trace (state_of (step w RlClose s)) = trace s @ [RlRemoveAllListeners]"
  by (simp add: closedDown_def onClose_def emit_def Let_def history_clear_def
      split: option.splits)

text \<open>
  From then on, as long as no listener is registered anew, the session stays closed and
  detached, no line, history or close event of the source reaches it, and the trace
  grows by no \<open>rl.resume()\<close>, no \<open>rl.prompt(true)\<close>, no call of a data listener and no
  call of an error listener of the caller.
\<close>

lemma step_trace:
  "\<exists>ext. trace (state_of (step w ev s)) = trace s @ ext \<and> list_all (allowed s) ext"
proof (cases "registryEvent ev")
  case False
  from frame_step [OF False] show ?thesis by (simp add: frame_def)
next
  case True
  then show ?thesis
  proof (cases ev)
    case (Start args)
    have "allowed (s\<lparr>started := True\<rparr>) = allowed s" by (intro allowed_cong) simp_all
    with frame_start [of s w args] Start show ?thesis by (simp add: frame_def)
  next
    case (On e l)
    then show ?thesis by (simp add: on_def Let_def)
  next
    case (Off e l)
    then show ?thesis by (simp add: off_def Let_def)
  next
    case RlClose
    then show ?thesis by (simp add: onClose_def emit_def Let_def)
  qed simp_all
qed

lemma closedDown_step:
  "closedDown s \<Longrightarrow> \<not> isOn ev \<Longrightarrow> closedDown (state_of (step w ev s))"
proof (cases "registryEvent ev")
  case False
  assume "closedDown s" "\<not> isOn ev"
  with frame_step [OF False, of s w] show ?thesis by (simp add: closedDown_def frame_def)
next
  case True
  assume c: "closedDown s" and n: "\<not> isOn ev"
  from True show ?thesis
  proof (cases ev)
    case (Start args)
    with frame_start [of s w args] c show ?thesis by (simp add: closedDown_def frame_def)
  next
    case (On e l)
    with n show ?thesis by simp
  next
    case (Off e l)
    with c show ?thesis by (cases e) (simp_all add: closedDown_def off_def)
  next
    case RlClose
    with c show ?thesis by (simp add: closedDown_def)
  qed simp_all
qed

lemma closedDown_allowed: "closedDown s \<Longrightarrow> allowed s a \<Longrightarrow> afterCloseAction a"
  by (cases a) (simp_all add: closedDown_def)

lemma closedDown_run:
  "closedDown s \<Longrightarrow> \<not> list_ex isOn evs \<Longrightarrow>
     closedDown (run w evs s)
     \<and> (\<exists>ext. trace (run w evs s) = trace s @ ext \<and> list_all afterCloseAction ext)"
proof (induction evs arbitrary: s)
  case Nil
  then show ?case by simp
next
  case (Cons ev evs)
  let ?s1 = "state_of (step w ev s)"
  from Cons.prems have c1: "closedDown ?s1" by (simp add: closedDown_step)
  from step_trace [of w ev s] obtain e1 where
    e1: "trace ?s1 = trace s @ e1" "list_all (allowed s) e1" by blast
  from e1(2) Cons.prems(1) have a1: "list_all afterCloseAction e1"
    by (auto simp: list_all_iff dest: closedDown_allowed)
  from Cons.IH [OF c1] Cons.prems(2) obtain e2 where
    e2: "closedDown (run w evs ?s1)" "trace (run w evs ?s1) = trace ?s1 @ e2"
      "list_all afterCloseAction e2"
    by auto
  from e1 e2 a1 have "trace (run w (ev # evs) s) = trace s @ (e1 @ e2)
      \<and> list_all afterCloseAction (e1 @ e2)"
    by simp
  then have "\<exists>ext. trace (run w (ev # evs) s) = trace s @ ext \<and> list_all afterCloseAction ext"
    by blast
  with e2(1) show ?case by simp
qed

lemma closed_source_is_silent:
  "closedDown s \<Longrightarrow>
     step w (RlLine text) s = Returned s \<and> step w (RlHistory h) s = Returned s
     \<and> step w RlClose s = Returned s"
  by (simp add: closedDown_def)

lemma never_resumed_or_prompted_after_close:
  "closed s \<Longrightarrow>
     closed (run w evs s)
     \<and> (\<exists>ext. trace (run w evs s) = trace s @ ext
          \<and> RlResume \<notin> set ext \<and> RlPrompt \<notin> set ext)"
proof (induction evs arbitrary: s)
  case Nil
  then show ?case by simp
next
  case (Cons ev evs)
  let ?s1 = "state_of (step w ev s)"
  from step_trace [of w ev s] obtain e1 where
    e1: "trace ?s1 = trace s @ e1" "list_all (allowed s) e1" by blast
  have n1: "RlResume \<notin> set e1 \<and> RlPrompt \<notin> set e1"
    using e1(2) Cons.prems by (auto simp: list_all_iff)
  have c1: "closed ?s1"
  proof (cases "registryEvent ev")
    case False
    from frame_step [OF False, of s w] Cons.prems show ?thesis by (simp add: frame_def)
  next
    case True
    then show ?thesis
    proof (cases ev)
      case (Start args)
      with frame_start [of s w args] Cons.prems show ?thesis by (simp add: frame_def)
    next
      case (On e l)
      with Cons.prems show ?thesis by (simp add: on_def Let_def)
    next
      case (Off e l)
      with Cons.prems show ?thesis by (simp add: off_def Let_def)
    next
      case RlClose
      with Cons.prems show ?thesis by (simp add: onClose_def emit_def Let_def)
    qed simp_all
  qed
  from Cons.IH [OF c1] obtain e2 where
    e2: "closed (run w evs ?s1)" "trace (run w evs ?s1) = trace ?s1 @ e2"
      "RlResume \<notin> set e2 \<and> RlPrompt \<notin> set e2"
    by auto
  from e1 e2 n1 have "trace (run w (ev # evs) s) = trace s @ (e1 @ e2)
      \<and> RlResume \<notin> set (e1 @ e2) \<and> RlPrompt \<notin> set (e1 @ e2)"
    by simp
  then have "\<exists>ext. trace (run w (ev # evs) s) = trace s @ ext
      \<and> RlResume \<notin> set ext \<and> RlPrompt \<notin> set ext"
    by blast
  with e2(1) show ?case by simp
qed

end
